theory Spec2Isabelle
  imports Complex_Main "HOL-Library.Word" "HOL-Library.Log_Nat"
begin

text \<open>
  A shallow embedding of FolderElf CLI (\<open>scanner.go\<close>, \<open>organizer.go\<close> and the
  \<open>DuplicateHandler\<close>): the directory scan with its duplicate detection, the resolution of
  duplicate groups, the organization strategies with the move primitive, and the
  inspection of zip archives. Pure functions are HOL functions; the disk is an explicit
  state that the operations take and return; a Go map that is ranged over comes with the
  order in which the runtime yields its keys; errors are values.
\<close>

section \<open>Strings and paths\<close>

text \<open>
  Go strings are byte sequences; they are modelled as \<open>string\<close>. \<open>strings.ToLower\<close> maps
  every rune of the UTF-8 text to its lower case. The model maps the ASCII capital letters,
  and the two runes outside ASCII whose lower case is an ASCII letter: U+0130 (bytes C4 B0)
  becomes \<open>i\<close> and U+212A (bytes E2 84 AA) becomes \<open>k\<close>. Every other byte is left as it
  is: the lower case of any other rune is outside ASCII as well, so it meets none of the
  ASCII extensions and patterns the program compares with.
\<close>

definition to_lower_char :: "char \<Rightarrow> char" where
  "to_lower_char c =
     (case map_of (zip ''ABCDEFGHIJKLMNOPQRSTUVWXYZ'' ''abcdefghijklmnopqrstuvwxyz'') c of
        None \<Rightarrow> c | Some l \<Rightarrow> l)"

fun ToLower :: "string \<Rightarrow> string" where
  "ToLower [] = []"
| "ToLower [a] = [to_lower_char a]"
| "ToLower [a, b] =
     (if a = CHR 0xC4 \<and> b = CHR 0xB0 then ''i'' else to_lower_char a # ToLower [b])"
| "ToLower (a # b # c # cs) =
     (if a = CHR 0xE2 \<and> b = CHR 0x84 \<and> c = CHR 0xAA then CHR ''k'' # ToLower cs
      else if a = CHR 0xC4 \<and> b = CHR 0xB0 then CHR ''i'' # ToLower (c # cs)
      else to_lower_char a # ToLower (b # c # cs))"

definition HasPrefix :: "string \<Rightarrow> string \<Rightarrow> bool" where
  "HasPrefix s p = (take (length p) s = p)"

definition HasSuffix :: "string \<Rightarrow> string \<Rightarrow> bool" where
  "HasSuffix s x = (length x \<le> length s \<and> drop (length s - length x) s = x)"

fun Contains :: "string \<Rightarrow> string \<Rightarrow> bool" where
  "Contains [] sub = (sub = [])"
| "Contains (c # cs) sub = (HasPrefix (c # cs) sub \<or> Contains cs sub)"

text \<open>
  \<open>filepath.Ext\<close>: the suffix that starts at the last dot of the last path element,
  empty when that element has no dot.
\<close>

definition Ext :: "string \<Rightarrow> string" where
  "Ext path =
     (let base = rev (takeWhile (\<lambda>c. c \<noteq> CHR ''/'') (rev path))
      in if CHR ''.'' \<in> set base
         then CHR ''.'' # rev (takeWhile (\<lambda>c. c \<noteq> CHR ''.'') (rev base))
         else [])"

text \<open>
  \<open>filepath.Join\<close> of a clean directory path and a single element, and \<open>filepath.Dir\<close>
  of a clean path.
\<close>

definition Join :: "string \<Rightarrow> string \<Rightarrow> string" where
  "Join dir name = dir @ ''/'' @ name"

definition Dir :: "string \<Rightarrow> string" where
  "Dir path =
     (if CHR ''/'' \<notin> set path then ''.''
      else let d = rev (tl (dropWhile (\<lambda>c. c \<noteq> CHR ''/'') (rev path)))
           in if d = [] then ''/'' else d)"

section \<open>The scanner (scanner.go)\<close>

record FileInfo =
  Path :: string
  Name :: string
  Size :: int
  Extension :: string
  Category :: string
  Hash :: string
  LastModified :: int
  IsDuplicate :: bool
  IsZip :: bool

record Scanner =
  Files :: "FileInfo list"
  Duplicates :: "string \<rightharpoonup> FileInfo list"
  Categories :: "string \<rightharpoonup> FileInfo list"

definition NewScanner :: Scanner where
  "NewScanner = \<lparr>Files = [], Duplicates = Map.empty, Categories = Map.empty\<rparr>"

definition image_exts :: "string list" where
  "image_exts = [''.jpg'', ''.jpeg'', ''.png'', ''.gif'', ''.bmp'', ''.tiff'', ''.svg'', ''.webp'']"

definition document_exts :: "string list" where
  "document_exts = [''.pdf'', ''.doc'', ''.docx'', ''.txt'', ''.rtf'', ''.odt'', ''.xls'',
     ''.xlsx'', ''.ppt'', ''.pptx'']"

definition video_exts :: "string list" where
  "video_exts = [''.mp4'', ''.avi'', ''.mkv'', ''.mov'', ''.wmv'', ''.flv'', ''.webm'']"

definition music_exts :: "string list" where
  "music_exts = [''.mp3'', ''.wav'', ''.flac'', ''.aac'', ''.ogg'', ''.wma'']"

definition application_exts :: "string list" where
  "application_exts = [''.pkg'', ''.exe'', ''.msi'', ''.deb'', ''.rpm'', ''.app'']"

definition archive_exts :: "string list" where
  "archive_exts = [''.zip'', ''.rar'', ''.7z'', ''.tar'', ''.gz'', ''.bz2'']"

definition diskimage_exts :: "string list" where
  "diskimage_exts = [''.iso'', ''.dmg'']"

definition determineCategory :: "string \<Rightarrow> string \<Rightarrow> string" where
  "determineCategory ext name =
     (if ext \<in> set image_exts then ''Images''
      else if ext \<in> set document_exts then ''Documents''
      else if ext \<in> set video_exts then ''Videos''
      else if ext \<in> set music_exts then ''Music''
      else if ext \<in> set application_exts then ''Applications''
      else if ext \<in> set archive_exts then ''Archives''
      else if ext \<in> set diskimage_exts then ''Disk Images''
      else let lowerName = ToLower name
           in if Contains lowerName ''install'' \<or> Contains lowerName ''setup''
              then ''Applications''
              else if Contains lowerName ''manual'' \<or> Contains lowerName ''guide''
              then ''Documents''
              else ''Other'')"

text \<open>
  What \<open>filepath.Walk\<close> finds on disk. A regular file carries its name, its bytes, its
  modification time, whether \<open>os.Open\<close> succeeds on it (\<open>checkFilePermissions\<close>) and
  whether reading it to the end succeeds (\<open>calculateFileHash\<close>). A directory carries its
  name, whether it can be listed, and its entries in the order Walk visits them. An entry
  that cannot be stat'ed is \<open>Unstatable\<close>.
\<close>

datatype entry =
  RegFile string string int bool bool
| Directory string bool "entry list"
| Unstatable string

fun entry_name :: "entry \<Rightarrow> string" where
  "entry_name (RegFile n c t op rd) = n"
| "entry_name (Directory n ls es) = n"
| "entry_name (Unstatable n) = n"

text \<open>
  The body of the walk callback for a regular file (scanner.go lines 77-127). \<open>md5hex\<close>
  stands for the hex MD5 digest of the file's bytes.
\<close>

definition visit_file ::
  "(string \<Rightarrow> string) \<Rightarrow> string \<Rightarrow> string \<Rightarrow> string \<Rightarrow> int \<Rightarrow> bool \<Rightarrow> bool \<Rightarrow> Scanner \<Rightarrow> Scanner" where
  "visit_file md5hex path name bytes mtime openable readable s =
     (if HasPrefix name ''.'' then s
      else if Contains path ''.app/Contents/'' then s
      else if \<not> openable then s
      else
        let ext0 = ToLower (Ext name);
            ext = (if ext0 = [] then ''no_extension'' else ext0);
            category = determineCategory ext name;
            hash = (if readable then md5hex bytes else []);
            fileInfo = \<lparr>Path = path, Name = name, Size = int (length bytes),
                        Extension = ext, Category = category, Hash = hash,
                        LastModified = mtime, IsDuplicate = False,
                        IsZip = (ext = ''.zip'')\<rparr>
        in s\<lparr>Files := Files s @ [fileInfo],
             Categories := (Categories s)(category \<mapsto>
                (case Categories s category of None \<Rightarrow> [] | Some fs \<Rightarrow> fs) @ [fileInfo])\<rparr>)"

text \<open>
  \<open>filepath.Walk\<close> with the callback of \<open>ScanDirectory\<close>: \<open>None\<close> is the walk's error
  (the callback returns every error Walk reports to it), a hidden directory or an
  \<open>.app\<close> bundle is not descended into (\<open>filepath.SkipDir\<close>).
\<close>

fun walk :: "(string \<Rightarrow> string) \<Rightarrow> string \<Rightarrow> entry \<Rightarrow> Scanner \<Rightarrow> Scanner option"
  and walk_entries :: "(string \<Rightarrow> string) \<Rightarrow> string \<Rightarrow> entry list \<Rightarrow> Scanner \<Rightarrow> Scanner option"
where
  "walk md5hex path (Unstatable n) s = None"
| "walk md5hex path (RegFile n bytes mtime openable readable) s =
     Some (visit_file md5hex path n bytes mtime openable readable s)"
| "walk md5hex path (Directory n listable es) s =
     (if \<not> listable then None
      else if HasPrefix n ''.'' then Some s
      else if HasSuffix n ''.app'' then Some s
      else walk_entries md5hex path es s)"
| "walk_entries md5hex dir [] s = Some s"
| "walk_entries md5hex dir (e # es) s =
     (case walk md5hex (Join dir (entry_name e)) e s of
        None \<Rightarrow> None
      | Some s' \<Rightarrow> walk_entries md5hex dir es s')"

text \<open>\<open>findDuplicates\<close>, first loop: group the files by non-empty hash.\<close>

fun group_by_hash :: "FileInfo list \<Rightarrow> (string \<rightharpoonup> FileInfo list) \<Rightarrow> (string \<rightharpoonup> FileInfo list)" where
  "group_by_hash [] hashMap = hashMap"
| "group_by_hash (file # rest) hashMap =
     (if Hash file \<noteq> []
      then group_by_hash rest (hashMap(Hash file \<mapsto>
             (case hashMap (Hash file) of None \<Rightarrow> [] | Some fs \<Rightarrow> fs) @ [file]))
      else group_by_hash rest hashMap)"

text \<open>
  The innermost loop (lines 213-218): set the flag of the first element of \<open>Files\<close> with
  the given path, then \<open>break\<close>.
\<close>

fun mark_path :: "string \<Rightarrow> FileInfo list \<Rightarrow> FileInfo list" where
  "mark_path p [] = []"
| "mark_path p (f # fs) =
     (if Path f = p then f\<lparr>IsDuplicate := True\<rparr> # fs else f # mark_path p fs)"

fun mark_group :: "FileInfo list \<Rightarrow> FileInfo list \<Rightarrow> FileInfo list" where
  "mark_group [] sfiles = sfiles"
| "mark_group (g # gs) sfiles = mark_group gs (mark_path (Path g) sfiles)"

text \<open>
  The second loop ranges over a Go map, whose iteration order is not fixed; \<open>order\<close> is
  the order in which the runtime yields the keys of \<open>hashMap\<close>.
\<close>

fun mark_duplicates :: "(string \<rightharpoonup> FileInfo list) \<Rightarrow> string list \<Rightarrow> Scanner \<Rightarrow> Scanner" where
  "mark_duplicates hashMap [] s = s"
| "mark_duplicates hashMap (h # hs) s =
     (case hashMap h of
        None \<Rightarrow> mark_duplicates hashMap hs s
      | Some fs \<Rightarrow>
          if length fs > 1
          then mark_duplicates hashMap hs
                 (s\<lparr>Duplicates := (Duplicates s)(h \<mapsto> fs), Files := mark_group fs (Files s)\<rparr>)
          else mark_duplicates hashMap hs s)"

definition findDuplicates :: "string list \<Rightarrow> Scanner \<Rightarrow> Scanner" where
  "findDuplicates order s = mark_duplicates (group_by_hash (Files s) Map.empty) order s"

text \<open>
  \<open>ScanDirectory\<close> on a fresh scanner: \<open>None\<close> when the walk fails, and then duplicate
  detection does not run.
\<close>

definition ScanDirectory ::
  "(string \<Rightarrow> string) \<Rightarrow> string list \<Rightarrow> string \<Rightarrow> entry \<Rightarrow> Scanner option" where
  "ScanDirectory md5hex order dirPath tree =
     (case walk md5hex dirPath tree NewScanner of
        None \<Rightarrow> None
      | Some s \<Rightarrow> Some (findDuplicates order s))"

section \<open>Auxiliary notions for the proofs about the scanner\<close>

text \<open>
  \<open>as_scanned\<close> is what the walk callback establishes for every record it creates;
  \<open>all_records\<close> lifts a property to the records of \<open>Files\<close> and of \<open>Categories\<close>;
  \<open>mark_set\<close> and \<open>dup_paths\<close> describe the result of the marking loops.
\<close>

definition norm_ext :: "string \<Rightarrow> string" where
  "norm_ext name = (if ToLower (Ext name) = [] then ''no_extension'' else ToLower (Ext name))"

definition as_scanned :: "FileInfo \<Rightarrow> bool" where
  "as_scanned f = (\<not> IsDuplicate f \<and> Extension f = norm_ext (Name f) \<and>
      Category f = determineCategory (Extension f) (Name f) \<and>
      IsZip f = (Extension f = ''.zip''))"

definition all_records :: "(FileInfo \<Rightarrow> bool) \<Rightarrow> Scanner \<Rightarrow> bool" where
  "all_records P s = ((\<forall>f \<in> set (Files s). P f) \<and>
      (\<forall>c fs. Categories s c = Some fs \<longrightarrow> (\<forall>f \<in> set fs. P f)))"

definition add_record :: "FileInfo \<Rightarrow> Scanner \<Rightarrow> Scanner" where
  "add_record fi s = s\<lparr>Files := Files s @ [fi],
          Categories := (Categories s)(Category fi \<mapsto>
             (case Categories s (Category fi) of None \<Rightarrow> [] | Some fs \<Rightarrow> fs) @ [fi])\<rparr>"

definition clear_flag :: "FileInfo \<Rightarrow> FileInfo" where
  "clear_flag f = f\<lparr>IsDuplicate := False\<rparr>"

definition mark_set :: "string set \<Rightarrow> FileInfo list \<Rightarrow> FileInfo list" where
  "mark_set P fs = map (\<lambda>f. if Path f \<in> P then f\<lparr>IsDuplicate := True\<rparr> else f) fs"

definition dup_paths :: "(string \<rightharpoonup> FileInfo list) \<Rightarrow> string list \<Rightarrow> string set" where
  "dup_paths hashMap order =
     {p. \<exists>h \<in> set order. \<exists>fs. hashMap h = Some fs \<and> length fs > 1 \<and> p \<in> Path ` set fs}"

definition in_dup_group :: "string list \<Rightarrow> FileInfo list \<Rightarrow> string \<Rightarrow> bool" where
  "in_dup_group order fs k =
     (k \<in> set order \<and> k \<noteq> [] \<and> length (filter (\<lambda>f. Hash f = k) fs) > 1)"

text \<open>
  A directory tree as a file system presents it: within a directory the names are
  distinct, and no name contains a slash.
\<close>

fun plain_names :: "entry \<Rightarrow> bool" where
  "plain_names (RegFile n bytes mtime openable readable) = True"
| "plain_names (Unstatable n) = True"
| "plain_names (Directory n listable es) =
     (distinct (map entry_name es) \<and>
      (\<forall>e \<in> set es. CHR ''/'' \<notin> set (entry_name e) \<and> plain_names e))"

section \<open>A small scan used in the examples\<close>

text \<open>
  \<open>example_md5\<close> stands in for MD5 in the examples: it is injective and never empty.
  The views project a scan result onto the fields an example looks at.
\<close>

definition example_md5 :: "string \<Rightarrow> string" where
  "example_md5 bytes = ''h'' @ bytes"

definition example_tree :: entry where
  "example_tree = Directory ''dl'' True
     [RegFile ''a.jpg'' ''X'' 5 True True,
      RegFile ''b.JPG'' ''X'' 7 True True,
      RegFile ''c.rar'' ''Y'' 7 True True,
      Directory ''.hid'' True [RegFile ''z.txt'' ''X'' 1 True True],
      RegFile ''d.zip'' ''Z'' 7 True False,
      RegFile ''e.txt'' ''X'' 9 True False]"

definition zip_flags :: "Scanner \<Rightarrow> (string \<times> bool) list" where
  "zip_flags s = map (\<lambda>f. (Extension f, IsZip f)) (Files s)"

definition flag_view :: "string \<Rightarrow> string \<Rightarrow> Scanner \<Rightarrow> bool list \<times> bool list option \<times> bool list option" where
  "flag_view c h s = (map IsDuplicate (Files s), map_option (map IsDuplicate) (Categories s c),
      map_option (map IsDuplicate) (Duplicates s h))"

definition group_view :: "string \<Rightarrow> Scanner \<Rightarrow> string list option \<times> (string \<times> bool) list" where
  "group_view h s = (map_option (map Path) (Duplicates s h), map (\<lambda>f. (Path f, IsDuplicate f)) (Files s))"

section \<open>Archive inspection (organizer.go)\<close>

text \<open>
  An entry of a zip archive's central directory, as \<open>archive/zip\<close> presents it: the
  name, whether \<open>FileInfo().IsDir()\<close> holds, and the two 64-bit sizes of the header.
\<close>

record zip_entry =
  zname :: string
  zis_dir :: bool
  CompressedSize64 :: "64 word"
  UncompressedSize64 :: "64 word"

record tally =
  imageCount :: nat
  documentCount :: nat
  videoCount :: nat
  audioCount :: nat
  applicationCount :: nat
  fontCount :: nat
  codeCount :: nat

definition zip_application_exts :: "string list" where
  "zip_application_exts = [''.exe'', ''.msi'', ''.dmg'', ''.pkg'', ''.app'', ''.deb'', ''.rpm'']"

definition font_exts :: "string list" where
  "font_exts = [''.ttf'', ''.otf'', ''.woff'', ''.woff2'', ''.eot'']"

definition code_exts :: "string list" where
  "code_exts = [''.js'', ''.py'', ''.java'', ''.cpp'', ''.c'', ''.cs'', ''.php'', ''.rb'', ''.go'',
     ''.rs'', ''.swift'', ''.kt'', ''.html'', ''.css'', ''.scss'', ''.sql'', ''.sh'', ''.json'',
     ''.xml'', ''.yaml'', ''.yml'']"

text \<open>The \<open>switch\<close> of \<open>analyzeZipContents\<close> (lines 488-503) on one extension.\<close>

definition count_ext :: "string \<Rightarrow> tally \<Rightarrow> tally" where
  "count_ext ext t =
     (if ext \<in> set image_exts then t\<lparr>imageCount := imageCount t + 1\<rparr>
      else if ext \<in> set document_exts then t\<lparr>documentCount := documentCount t + 1\<rparr>
      else if ext \<in> set video_exts then t\<lparr>videoCount := videoCount t + 1\<rparr>
      else if ext \<in> set music_exts then t\<lparr>audioCount := audioCount t + 1\<rparr>
      else if ext \<in> set zip_application_exts then t\<lparr>applicationCount := applicationCount t + 1\<rparr>
      else if ext \<in> set font_exts then t\<lparr>fontCount := fontCount t + 1\<rparr>
      else if ext \<in> set code_exts then t\<lparr>codeCount := codeCount t + 1\<rparr>
      else t)"

fun count_entries :: "zip_entry list \<Rightarrow> tally \<Rightarrow> tally" where
  "count_entries [] t = t"
| "count_entries (f # fs) t =
     (if zis_dir f then count_entries fs t
      else count_entries fs (count_ext (ToLower (Ext (zname f))) t))"

text \<open>
  One step of the chain of \<open>if count > maxCount\<close> statements (lines 510-537) on the pair
  \<open>(maxCount, dominantCategory)\<close>.
\<close>

definition take_if_greater :: "nat \<Rightarrow> string \<Rightarrow> nat \<times> string \<Rightarrow> nat \<times> string" where
  "take_if_greater count folder st = (if count > fst st then (count, folder) else st)"

definition dominant :: "tally \<Rightarrow> string" where
  "dominant t =
     (let st = (0, ''Other'');
          st = take_if_greater (imageCount t) ''Images'' st;
          st = take_if_greater (documentCount t) ''Documents'' st;
          st = take_if_greater (videoCount t) ''Videos'' st;
          st = take_if_greater (audioCount t) ''Music'' st;
          st = take_if_greater (applicationCount t) ''Applications'' st;
          st = take_if_greater (fontCount t) ''Other'' st;
          st = take_if_greater (codeCount t) ''Other'' st
      in snd st)"

definition analyzeZipContents :: "zip_entry list \<Rightarrow> string" where
  "analyzeZipContents entries =
     dominant (count_entries entries
       \<lparr>imageCount = 0, documentCount = 0, videoCount = 0, audioCount = 0,
        applicationCount = 0, fontCount = 0, codeCount = 0\<rparr>)"

text \<open>
  The amended reading of the specification of \<open>analyzeZipContents\<close>: count the entries
  that are not directories per bucket, and take the folder of the first bucket, in the
  order images, documents, videos, audio, applications, fonts, code, that reaches the
  highest count; \<open>Other\<close> when every count is zero.
\<close>

definition bucket_count :: "string list \<Rightarrow> zip_entry list \<Rightarrow> nat" where
  "bucket_count exts entries =
     length (filter (\<lambda>f. \<not> zis_dir f \<and> ToLower (Ext (zname f)) \<in> set exts) entries)"

definition bucket_counts :: "zip_entry list \<Rightarrow> (string \<times> nat) list" where
  "bucket_counts entries =
     [(''Images'', bucket_count image_exts entries),
      (''Documents'', bucket_count document_exts entries),
      (''Videos'', bucket_count video_exts entries),
      (''Music'', bucket_count music_exts entries),
      (''Applications'', bucket_count zip_application_exts entries),
      (''Other'', bucket_count font_exts entries),
      (''Other'', bucket_count code_exts entries)]"

definition first_highest :: "(string \<times> nat) list \<Rightarrow> string" where
  "first_highest buckets =
     (let m = fold max (map snd buckets) 0
      in if m = 0 then ''Other''
         else case filter (\<lambda>b. snd b = m) buckets of [] \<Rightarrow> ''Other'' | b # bs \<Rightarrow> fst b)"

definition jpg_entry :: zip_entry where
  "jpg_entry = \<lparr>zname = ''a.jpg'', zis_dir = False, CompressedSize64 = 10,
                 UncompressedSize64 = 20\<rparr>"

definition pdf_entry :: zip_entry where
  "pdf_entry = \<lparr>zname = ''docs/b.PDF'', zis_dir = False, CompressedSize64 = 10,
                 UncompressedSize64 = 20\<rparr>"

text \<open>The chain of comparisons as a fold over the buckets (used in the proofs).\<close>

definition chain_step :: "string \<times> nat \<Rightarrow> nat \<times> string \<Rightarrow> nat \<times> string" where
  "chain_step b st = take_if_greater (snd b) (fst b) st"

section \<open>Duplicate resolution (the DuplicateHandler)\<close>

definition copyPatterns :: "string list" where
  "copyPatterns =
     ['' (1)'', '' (2)'', '' (3)'', '' (4)'', '' (5)'', '' (6)'', '' (7)'', '' (8)'', '' (9)'',
      '' (10)'',
      '' copy'', '' copy (1)'', '' copy (2)'', '' copy (3)'', '' copy (4)'', '' copy (5)'',
      '' - copy'', '' - copy (1)'', '' - copy (2)'', '' - copy (3)'', '' - copy (4)'',
      '' - copy (5)'',
      ''_copy'', ''_copy(1)'', ''_copy(2)'', ''_copy(3)'', ''_copy(4)'', ''_copy(5)'',
      ''-copy'', ''-copy(1)'', ''-copy(2)'', ''-copy(3)'', ''-copy(4)'', ''-copy(5)'',
      ''.copy'', ''.copy(1)'', ''.copy(2)'', ''.copy(3)'', ''.copy(4)'', ''.copy(5)'',
      '' (copy)'', '' (copy 1)'', '' (copy 2)'', '' (copy 3)'', '' (copy 4)'', '' (copy 5)'',
      ''- (copy)'', ''- (copy 1)'', ''- (copy 2)'', ''- (copy 3)'', ''- (copy 4)'',
      ''- (copy 5)'',
      ''_ (copy)'', ''_ (copy 1)'', ''_ (copy 2)'', ''_ (copy 3)'', ''_ (copy 4)'',
      ''_ (copy 5)'',
      '' duplicate'', '' duplicate (1)'', '' duplicate (2)'', '' duplicate (3)'',
      '' duplicate (4)'', '' duplicate (5)'',
      '' - duplicate'', '' - duplicate (1)'', '' - duplicate (2)'', '' - duplicate (3)'',
      '' - duplicate (4)'', '' - duplicate (5)'',
      ''_duplicate'', ''_duplicate(1)'', ''_duplicate(2)'', ''_duplicate(3)'',
      ''_duplicate(4)'', ''_duplicate(5)'',
      ''-duplicate'', ''-duplicate(1)'', ''-duplicate(2)'', ''-duplicate(3)'',
      ''-duplicate(4)'', ''-duplicate(5)'']"

fun matches_none :: "string \<Rightarrow> string list \<Rightarrow> bool" where
  "matches_none lowerName [] = True"
| "matches_none lowerName (pattern # rest) =
     (if Contains lowerName pattern then False else matches_none lowerName rest)"

definition isOriginalFile :: "string \<Rightarrow> bool" where
  "isOriginalFile filename = matches_none (ToLower filename) copyPatterns"

text \<open>
  \<open>time.Time.After\<close> on modification times, which are modelled as integers (instants).
  \<open>newest\<close> is the loop of \<open>RemoveDuplicates\<close> and \<open>MoveDuplicatesToFolder\<close>
  (lines 460-465): start from \<open>files[0]\<close>, replace by a strictly later file.
\<close>

fun newest :: "FileInfo list \<Rightarrow> FileInfo \<Rightarrow> FileInfo" where
  "newest [] newestFile = newestFile"
| "newest (file # rest) newestFile =
     (if LastModified file > LastModified newestFile then newest rest file
      else newest rest newestFile)"

text \<open>
  The first loop of \<open>RemoveDuplicatesByPattern\<close> (lines 632-638): \<open>originalFile\<close> ends
  as the last member whose name looks original (\<open>None\<close> is the nil pointer), and every
  member whose name looks like a copy is appended to \<open>copyFiles\<close>.
\<close>

fun split_by_pattern ::
  "FileInfo list \<Rightarrow> FileInfo option \<Rightarrow> FileInfo list \<Rightarrow> FileInfo option \<times> FileInfo list" where
  "split_by_pattern [] originalFile copyFiles = (originalFile, copyFiles)"
| "split_by_pattern (f # rest) originalFile copyFiles =
     (if isOriginalFile (Name f) then split_by_pattern rest (Some f) copyFiles
      else split_by_pattern rest originalFile (copyFiles @ [f]))"

text \<open>
  The fallback loop (lines 642-647) takes the address of the loop variable:
  \<open>originalFile = &file\<close>. From Go 1.22 on, every iteration has a variable of its own and
  the loop is \<open>newest\<close>. Before Go 1.22 the loop has one variable: once the pointer is
  set to it, every later comparison compares the variable with itself, and after the
  loop the pointer reads the last member. \<open>points_to_loop_var\<close> says where the pointer
  points.
\<close>

fun shared_var_loop :: "FileInfo list \<Rightarrow> FileInfo \<Rightarrow> bool \<Rightarrow> bool" where
  "shared_var_loop [] first points_to_loop_var = points_to_loop_var"
| "shared_var_loop (file # rest) first points_to_loop_var =
     (if points_to_loop_var then shared_var_loop rest first True
      else if LastModified file > LastModified first then shared_var_loop rest first True
      else shared_var_loop rest first False)"

definition fallback_keeper :: "bool \<Rightarrow> FileInfo list \<Rightarrow> FileInfo" where
  "fallback_keeper go122 files =
     (if go122 then newest files (hd files)
      else if shared_var_loop files (hd files) False then last files else hd files)"

text \<open>
  The decision of \<open>RemoveDuplicatesByPattern\<close> for one group (lines 624-654): the member
  announced as kept and the list \<open>copyFiles\<close> that the removal loop goes through.
  \<open>None\<close> when the group has fewer than two members (\<open>continue\<close>).
\<close>

definition pattern_group :: "bool \<Rightarrow> FileInfo list \<Rightarrow> (FileInfo \<times> FileInfo list) option" where
  "pattern_group go122 files =
     (if length files < 2 then None
      else case split_by_pattern files None [] of
             (Some originalFile, copyFiles) \<Rightarrow> Some (originalFile, copyFiles)
           | (None, copyFiles) \<Rightarrow>
               let originalFile = fallback_keeper go122 files
               in Some (originalFile,
                        copyFiles @ filter (\<lambda>file. Path file \<noteq> Path originalFile) files))"

definition example_file :: "string \<Rightarrow> int \<Rightarrow> FileInfo" where
  "example_file name mtime =
     \<lparr>Path = ''/dl/'' @ name, Name = name, Size = 1, Extension = ''.txt'',
      Category = ''Documents'', Hash = ''hX'', LastModified = mtime, IsDuplicate = False,
      IsZip = False\<rparr>"

section \<open>Hostile-archive screening (checkZipBomb)\<close>

text \<open>
  The ratio test is done in \<open>float64\<close>. The values that occur are zero or positive and
  far inside the normal range (quotients of integers below \<open>2^64\<close>), so a \<open>float64\<close>
  is represented by a pair \<open>(m, e)\<close> of integers standing for \<open>m * 2^e\<close>, and rounding
  is IEEE 754 round-to-nearest, ties-to-even, to 53 significant bits.
\<close>

type_synonym f64 = "int \<times> int"

definition round_half_even :: "int \<Rightarrow> int \<Rightarrow> int" where
  "round_half_even p q =
     (let d = p div q; r = p mod q
      in if 2 * r < q then d
         else if 2 * r > q then d + 1
         else if even d then d else d + 1)"

text \<open>
  The \<open>float64\<close> nearest to the rational \<open>p / q\<close> (for \<open>p \<ge> 0\<close> and \<open>q > 0\<close>):
  with \<open>lg = \<lfloor>log\<^sub>2 (p / q)\<rfloor>\<close>, which is \<open>bitlen p - bitlen q\<close> or one less, the
  quotient is scaled by \<open>2^(52 - lg)\<close> into \<open>[2^52, 2^53)\<close> and rounded to an integer.
\<close>

definition f64_nearest :: "int \<Rightarrow> int \<Rightarrow> f64" where
  "f64_nearest p q =
     (if p = 0 then (0, 0)
      else
        let k = bitlen p - bitlen q;
            lg = (if q * 2 ^ nat k \<le> p * 2 ^ nat (- k) then k else k - 1);
            e = lg - 52
        in (round_half_even (p * 2 ^ nat (- e)) (q * 2 ^ nat e), e))"

definition f64_of_uint64 :: "64 word \<Rightarrow> f64" where
  "f64_of_uint64 w = f64_nearest (uint w) 1"

definition f64_div :: "f64 \<Rightarrow> f64 \<Rightarrow> f64" where
  "f64_div x y =
     f64_nearest (fst x * 2 ^ nat (snd x - snd y)) (fst y * 2 ^ nat (snd y - snd x))"

definition f64_less :: "f64 \<Rightarrow> f64 \<Rightarrow> bool" where
  "f64_less x y =
     (fst x * 2 ^ nat (snd x - snd y) < fst y * 2 ^ nat (snd y - snd x))"

definition maxZipSize :: int where
  "maxZipSize = 100 * 1024 * 1024"

definition maxZipEntries :: nat where
  "maxZipEntries = 10000"

datatype zip_error =
  CannotStat | TooLarge | CannotOpen | TooManyEntries | SuspiciousRatio | ExpandsTooLarge

text \<open>
  Lines 80-85: \<open>compressionRatio < 0.01 && f.UncompressedSize64 > 1024*1024\<close>, inside
  \<open>if f.UncompressedSize64 > 0\<close>; the constant \<open>0.01\<close> is the \<open>float64\<close> nearest to 1/100.
\<close>

definition suspicious_ratio :: "zip_entry \<Rightarrow> bool" where
  "suspicious_ratio f =
     (UncompressedSize64 f > 0 \<and>
      f64_less (f64_div (f64_of_uint64 (CompressedSize64 f)) (f64_of_uint64 (UncompressedSize64 f)))
               (f64_nearest 1 100) \<and>
      UncompressedSize64 f > 1024 * 1024)"

text \<open>
  The loop over \<open>r.File\<close> (lines 73-91). \<open>totalSize\<close> is an \<open>int64\<close>: the conversion
  \<open>int64(f.UncompressedSize64)\<close> keeps the 64 bits, the addition wraps, and the comparison
  with \<open>maxZipSize*10\<close> reads the sum as a signed number.
\<close>

fun check_entries :: "zip_entry list \<Rightarrow> nat \<Rightarrow> 64 word \<Rightarrow> zip_error option" where
  "check_entries [] entryCount totalSize = None"
| "check_entries (f # rest) entryCount totalSize =
     (if entryCount + 1 > maxZipEntries then Some TooManyEntries
      else if suspicious_ratio f then Some SuspiciousRatio
      else if sint (totalSize + UncompressedSize64 f) > maxZipSize * 10 then Some ExpandsTooLarge
      else check_entries rest (entryCount + 1) (totalSize + UncompressedSize64 f))"

text \<open>
  \<open>checkZipBomb\<close>: \<open>stat\<close> is the file size \<open>os.Stat\<close> reports (\<open>None\<close> when it fails),
  \<open>opened\<close> the entries \<open>zip.OpenReader\<close> lists (\<open>None\<close> when it fails). The result is
  the error, \<open>None\<close> for \<open>nil\<close>.
\<close>

definition checkZipBomb :: "int option \<Rightarrow> zip_entry list option \<Rightarrow> zip_error option" where
  "checkZipBomb stat opened =
     (case stat of
        None \<Rightarrow> Some CannotStat
      | Some fileSize \<Rightarrow>
          if fileSize > maxZipSize then Some TooLarge
          else case opened of
                 None \<Rightarrow> Some CannotOpen
               | Some entries \<Rightarrow> check_entries entries 0 0)"

definition huge_entry :: zip_entry where
  "huge_entry = \<lparr>zname = ''x.bin'', zis_dir = False,
                  CompressedSize64 = 9223372036854775808,
                  UncompressedSize64 = 9223372036854775808\<rparr>"

section \<open>The file system and the move primitive\<close>

text \<open>
  The part of the disk the program touches. A directory entry that is not a directory is
  either a hard link to a file, named by the number of that file, or a symbolic link with
  the text of its target. The bytes belong to the file and not to the path, so two paths
  that are hard links to one file share them. \<open>next_inode\<close> is the number that the next
  created file gets. Paths are clean, absolute, slash-separated strings, and the
  directories above a path are real directories: symbolic links are followed at the last
  element of a path.
\<close>

datatype dirent = FileLink nat | SymLink string

record filesys =
  links :: "string \<rightharpoonup> dirent"
  bytes_of :: "nat \<rightharpoonup> string"
  next_inode :: nat
  folders :: "string set"

text \<open>
  The path a symbolic link at \<open>p\<close> with a given target stands for: an absolute target as it
  is, a relative one from the directory of the link; empty and \<open>.\<close> elements are dropped
  and \<open>..\<close> steps one element back.
\<close>

fun split_slash :: "string \<Rightarrow> string \<Rightarrow> string list" where
  "split_slash [] cur = [rev cur]"
| "split_slash (c # cs) cur =
     (if c = CHR ''/'' then rev cur # split_slash cs [] else split_slash cs (c # cur))"

fun drop_dots :: "string list \<Rightarrow> string list \<Rightarrow> string list" where
  "drop_dots [] kept = rev kept"
| "drop_dots (c # cs) kept =
     (if c = [] \<or> c = ''.'' then drop_dots cs kept
      else if c = ''..'' then drop_dots cs (tl kept)
      else drop_dots cs (c # kept))"

definition link_target :: "string \<Rightarrow> string \<Rightarrow> string" where
  "link_target p target =
     (let whole = (if HasPrefix target ''/'' then target else Dir p @ ''/'' @ target);
          parts = drop_dots (split_slash whole []) []
      in if parts = [] then ''/'' else concat (map (\<lambda>c. CHR ''/'' # c) parts))"

text \<open>
  Following symbolic links from a path until an entry that is not one (or nothing) is
  reached; the system gives up (\<open>ELOOP\<close>) after \<open>maxSymlinks\<close> links (40 on Linux). \<open>contents\<close> is what
  \<open>os.Open\<close> followed by a read of the whole file yields at a path, and \<open>stat_ok\<close> says that
  \<open>os.Stat(path)\<close> returns no error; both follow symbolic links.
\<close>

definition maxSymlinks :: nat where
  "maxSymlinks = 40"

fun follow :: "nat \<Rightarrow> (string \<rightharpoonup> dirent) \<Rightarrow> string \<Rightarrow> string option" where
  "follow 0 entries p = None"
| "follow (Suc n) entries p =
     (case entries p of
        None \<Rightarrow> Some p
      | Some (FileLink i) \<Rightarrow> Some p
      | Some (SymLink target) \<Rightarrow> follow n entries (link_target p target))"

definition final_path :: "filesys \<Rightarrow> string \<Rightarrow> string option" where
  "final_path fs p = follow (Suc maxSymlinks) (links fs) p"

definition contents :: "filesys \<Rightarrow> string \<Rightarrow> string option" where
  "contents fs p =
     (case final_path fs p of
        None \<Rightarrow> None
      | Some q \<Rightarrow> (case links fs q of Some (FileLink i) \<Rightarrow> bytes_of fs i | _ \<Rightarrow> None))"

definition stat_ok :: "filesys \<Rightarrow> string \<Rightarrow> bool" where
  "stat_ok fs path =
     (case final_path fs path of
        None \<Rightarrow> False
      | Some q \<Rightarrow> links fs q \<noteq> None \<or> q \<in> folders fs)"

text \<open>
  A disk without links: each listed path is the one name of a file of its own.
\<close>

definition plain_disk :: "(string \<times> string) list \<Rightarrow> string set \<Rightarrow> filesys" where
  "plain_disk files dirs =
     \<lparr>links = map_of (zip (map fst files) (map FileLink [0..<length files])),
      bytes_of = map_of (zip [0..<length files] (map snd files)),
      next_inode = length files,
      folders = dirs\<rparr>"

text \<open>
  What the operating system decides: for each call, whether it fails for a reason the
  model of the disk does not show (permissions, a rename across devices, a full disk),
  and what \<open>zip.OpenReader\<close> lists for a file with given bytes (\<open>None\<close> when the bytes
  are not a readable zip archive). \<open>copy_fails_after\<close> gives, for a source path, the
  number of bytes \<open>io.Copy\<close> writes before it fails (\<open>None\<close>: it does not fail).
\<close>

record io_env =
  rename_fails :: "string \<Rightarrow> string \<Rightarrow> bool"
  open_fails :: "string \<Rightarrow> bool"
  create_fails :: "string \<Rightarrow> bool"
  copy_fails_after :: "string \<Rightarrow> nat option"
  sync_fails :: "string \<Rightarrow> bool"
  remove_fails :: "string \<Rightarrow> bool"
  mkdir_fails :: "string \<Rightarrow> bool"
  zip_entries :: "string \<Rightarrow> zip_entry list option"

text \<open>
  \<open>q\<close> is \<open>p\<close> or lies below it; the proper ancestors of a path (the root excluded).
\<close>

definition under :: "string \<Rightarrow> string \<Rightarrow> bool" where
  "under p q = (q = p \<or> HasPrefix q (p @ ''/''))"

definition ancestors :: "string \<Rightarrow> string list" where
  "ancestors p =
     filter (\<lambda>a. a \<noteq> [] \<and> HasPrefix p (a @ ''/'')) (map (\<lambda>n. take n p) [0..<length p])"

text \<open>
  In each of the following, the first component of the result says whether the call
  returned an error. \<open>os.MkdirAll\<close> does nothing on an existing directory and otherwise
  creates the path and its missing ancestors; \<open>os.RemoveAll\<close> removes the path and all
  below it (its result is ignored by the program, and it is taken not to fail);
  \<open>os.Remove\<close> deletes the entry at the path, a symbolic link itself and not its target
  (the program applies it to entries that are not directories).
\<close>

definition MkdirAll :: "io_env \<Rightarrow> filesys \<Rightarrow> string \<Rightarrow> bool \<times> filesys" where
  "MkdirAll env fs path =
     (if (case final_path fs path of None \<Rightarrow> False | Some q \<Rightarrow> q \<in> folders fs) then (False, fs)
      else if mkdir_fails env path \<or> (\<exists>a \<in> set (path # ancestors path). links fs a \<noteq> None)
      then (True, fs)
      else (False, fs\<lparr>folders := folders fs \<union> set (path # ancestors path)\<rparr>))"

definition RemoveAll :: "filesys \<Rightarrow> string \<Rightarrow> filesys" where
  "RemoveAll fs path =
     fs\<lparr>links := (\<lambda>q. if under path q then None else links fs q),
        folders := Set.filter (\<lambda>q. \<not> under path q) (folders fs)\<rparr>"

definition Remove :: "io_env \<Rightarrow> filesys \<Rightarrow> string \<Rightarrow> bool \<times> filesys" where
  "Remove env fs path =
     (if links fs path = None \<or> remove_fails env path then (True, fs)
      else (False, fs\<lparr>links := (links fs)(path := None)\<rparr>))"

text \<open>
  \<open>os.Rename\<close> of an entry that is not a directory. It fails when the source has no entry
  and when the destination is a directory. When source and destination are the same
  path, or hard links to one file, it succeeds and changes nothing (\<open>rename(2)\<close>).
  Otherwise the entry itself goes to the destination, replacing what was there: a hard
  link still names its file; a symbolic link keeps its target text, which is then read
  from the directory of the destination.
\<close>

definition same_file :: "filesys \<Rightarrow> string \<Rightarrow> string \<Rightarrow> bool" where
  "same_file fs src dst =
     (src = dst \<or>
      (case links fs src of
         Some (FileLink i) \<Rightarrow> links fs dst = Some (FileLink i)
       | _ \<Rightarrow> False))"

definition Rename :: "io_env \<Rightarrow> filesys \<Rightarrow> string \<Rightarrow> string \<Rightarrow> bool \<times> filesys" where
  "Rename env fs src dst =
     (case links fs src of
        None \<Rightarrow> (True, fs)
      | Some e \<Rightarrow>
          if rename_fails env src dst \<or> dst \<in> folders fs then (True, fs)
          else if same_file fs src dst then (False, fs)
          else (False, fs\<lparr>links := ((links fs)(src := None))(dst \<mapsto> e)\<rparr>))"

text \<open>
  \<open>os.Open(src)\<close> follows symbolic links; it succeeds on a file, and on a directory, whose
  reads then fail. \<open>os.Create(dst)\<close> follows symbolic links as well: it empties the file
  the destination leads to, or creates a file where the destination leads to none, and
  yields the number of the file it writes to.
\<close>

datatype reader = ReadsFile nat | ReadsDir

definition open_src :: "io_env \<Rightarrow> filesys \<Rightarrow> string \<Rightarrow> reader option" where
  "open_src env fs src =
     (if open_fails env src then None
      else case final_path fs src of
             None \<Rightarrow> None
           | Some q \<Rightarrow>
               (case links fs q of
                  Some (FileLink i) \<Rightarrow> Some (ReadsFile i)
                | _ \<Rightarrow> if q \<in> folders fs then Some ReadsDir else None))"

definition create_dst :: "io_env \<Rightarrow> filesys \<Rightarrow> string \<Rightarrow> (nat \<times> filesys) option" where
  "create_dst env fs dst =
     (if create_fails env dst then None
      else case final_path fs dst of
             None \<Rightarrow> None
           | Some q \<Rightarrow>
               if q \<in> folders fs then None
               else (case links fs q of
                       Some (FileLink j) \<Rightarrow> Some (j, fs\<lparr>bytes_of := (bytes_of fs)(j \<mapsto> [])\<rparr>)
                     | _ \<Rightarrow>
                         Some (next_inode fs,
                               fs\<lparr>links := (links fs)(q \<mapsto> FileLink (next_inode fs)),
                                  bytes_of := (bytes_of fs)(next_inode fs \<mapsto> []),
                                  next_inode := Suc (next_inode fs)\<rparr>)))"

text \<open>
  \<open>copyAndDelete\<close> (organizer.go lines 543-571; the DuplicateHandler's copy differs only
  in calling \<open>dstFile.ReadFrom\<close> for \<open>io.Copy\<close>): open the source, create (truncate) the
  destination, copy, sync, remove the source; every error returns at once. The copy
  reads the source after the destination has been emptied.
\<close>

definition copyAndDelete :: "io_env \<Rightarrow> filesys \<Rightarrow> string \<Rightarrow> string \<Rightarrow> bool \<times> filesys" where
  "copyAndDelete env fs src dst =
     (case open_src env fs src of
        None \<Rightarrow> (True, fs)
      | Some r \<Rightarrow>
          (case create_dst env fs dst of
             None \<Rightarrow> (True, fs)
           | Some (j, created) \<Rightarrow>
               (case r of
                  ReadsDir \<Rightarrow> (True, created)
                | ReadsFile i \<Rightarrow>
                    let bytes = (case bytes_of created i of None \<Rightarrow> [] | Some b \<Rightarrow> b)
                    in case copy_fails_after env src of
                         Some n \<Rightarrow>
                           (True, created\<lparr>bytes_of := (bytes_of created)(j \<mapsto> take n bytes)\<rparr>)
                       | None \<Rightarrow>
                           let copied = created\<lparr>bytes_of := (bytes_of created)(j \<mapsto> bytes)\<rparr>
                           in if sync_fails env dst then (True, copied)
                              else Remove env copied src)))"

text \<open>\<open>atomicMove\<close>: rename first, copy and delete when the rename fails.\<close>

definition atomicMove :: "io_env \<Rightarrow> filesys \<Rightarrow> string \<Rightarrow> string \<Rightarrow> bool \<times> filesys" where
  "atomicMove env fs src dst =
     (case Rename env fs src dst of
        (False, fs') \<Rightarrow> (False, fs')
      | (True, fs') \<Rightarrow> copyAndDelete env fs src dst)"

text \<open>
  A disk is well formed when every hard link names a file that has been created and has
  its bytes, and no path is a directory and another kind of entry at once. The disks of
  an operating system are well formed.
\<close>

definition well_formed :: "filesys \<Rightarrow> bool" where
  "well_formed fs =
     ((\<forall>p i. links fs p = Some (FileLink i) \<longrightarrow> i < next_inode fs \<and> bytes_of fs i \<noteq> None) \<and>
      (\<forall>p. links fs p \<noteq> None \<longrightarrow> p \<notin> folders fs))"

text \<open>
  The destination leads to the file \<open>i\<close>: it is a hard link to it, or symbolic links from
  it end at one.
\<close>

definition leads_to :: "filesys \<Rightarrow> string \<Rightarrow> nat \<Rightarrow> bool" where
  "leads_to fs dst i =
     (case final_path fs dst of None \<Rightarrow> False | Some q \<Rightarrow> links fs q = Some (FileLink i))"

text \<open>Environments and disks for the examples of the move primitive.\<close>

definition no_zip :: "string \<Rightarrow> zip_entry list option" where
  "no_zip bytes = None"

definition ok_env :: io_env where
  "ok_env = \<lparr>rename_fails = (\<lambda>src dst. False), open_fails = (\<lambda>p. False),
             create_fails = (\<lambda>p. False), copy_fails_after = (\<lambda>p. None),
             sync_fails = (\<lambda>p. False), remove_fails = (\<lambda>p. False),
             mkdir_fails = (\<lambda>p. False), zip_entries = no_zip\<rparr>"

definition cross_device_env :: io_env where
  "cross_device_env = ok_env\<lparr>rename_fails := (\<lambda>src dst. True)\<rparr>"

definition failing_copy_env :: io_env where
  "failing_copy_env = cross_device_env\<lparr>copy_fails_after := (\<lambda>p. Some 1)\<rparr>"

definition small_disk :: filesys where
  "small_disk = plain_disk [(''/dl/a.jpg'', ''XYZ'')] {''/dl'', ''/dl/Images''}"

text \<open>
  A disk with links: \<open>/dl/a.jpg\<close> and \<open>/dl/Images/a.jpg\<close> are hard links to one file, and
  \<open>/dl/sub/l.jpg\<close> is a symbolic link with the relative target \<open>t.jpg\<close>.
\<close>

definition linked_disk :: filesys where
  "linked_disk =
     \<lparr>links = [''/dl/a.jpg'' \<mapsto> FileLink 0, ''/dl/Images/a.jpg'' \<mapsto> FileLink 0,
               ''/dl/sub/t.jpg'' \<mapsto> FileLink 1, ''/dl/sub/l.jpg'' \<mapsto> SymLink ''t.jpg''],
      bytes_of = [0 \<mapsto> ''XYZ'', 1 \<mapsto> ''T''],
      next_inode = 2,
      folders = {''/dl'', ''/dl/Images'', ''/dl/sub''}\<rparr>"

section \<open>The organizer (organizer.go)\<close>

record FileOrganizer =
  DryRun :: bool
  CategoryMap :: "string \<rightharpoonup> string"
  BasePath :: string

definition NewFileOrganizer :: "bool \<Rightarrow> string \<Rightarrow> FileOrganizer" where
  "NewFileOrganizer dryRun basePath =
     \<lparr>DryRun = dryRun,
      CategoryMap = [''Images'' \<mapsto> ''Images'', ''Documents'' \<mapsto> ''Documents'',
                     ''Videos'' \<mapsto> ''Videos'', ''Music'' \<mapsto> ''Music'',
                     ''Applications'' \<mapsto> ''Applications'', ''Archives'' \<mapsto> ''Archives'',
                     ''Disk Images'' \<mapsto> ''Disk Images'', ''Other'' \<mapsto> ''Other''],
      BasePath = basePath\<rparr>"

text \<open>The warnings the organizer and the duplicate handler print, with the name or path shown.\<close>

datatype warning =
  FolderFailed string
| ProbeFailed string
| FileExists string
| MoveFailed string
| SuspiciousZip string
| ZipOpenFailed string
| RemoveFailed string

text \<open>The state of a run of the organizer: the disk, the two counters, the warnings so far.\<close>

record org_run =
  disk :: filesys
  totalMoved :: nat
  totalSkipped :: nat
  warnings :: "warning list"

definition start_run :: "filesys \<Rightarrow> org_run" where
  "start_run fs = \<lparr>disk = fs, totalMoved = 0, totalSkipped = 0, warnings = []\<rparr>"

text \<open>
  The body shared by the three strategies for one file and its target folder
  (lines 160-186, 241-267 and 340-366): skip a file already in the folder, skip with a
  warning when the destination exists, otherwise announce the move (dry run) or move.
\<close>

definition place_file :: "io_env \<Rightarrow> bool \<Rightarrow> string \<Rightarrow> FileInfo \<Rightarrow> org_run \<Rightarrow> org_run" where
  "place_file env dryRun folderPath file st =
     (if Dir (Path file) = folderPath then st\<lparr>totalSkipped := totalSkipped st + 1\<rparr>
      else
        let destPath = Join folderPath (Name file)
        in if stat_ok (disk st) destPath
           then st\<lparr>totalSkipped := totalSkipped st + 1,
                   warnings := warnings st @ [FileExists destPath]\<rparr>
           else if dryRun then st\<lparr>totalMoved := totalMoved st + 1\<rparr>
           else case atomicMove env (disk st) (Path file) destPath of
                  (True, fs') \<Rightarrow>
                    st\<lparr>disk := fs', totalSkipped := totalSkipped st + 1,
                       warnings := warnings st @ [MoveFailed (Name file)]\<rparr>
                | (False, fs') \<Rightarrow> st\<lparr>disk := fs', totalMoved := totalMoved st + 1\<rparr>)"

fun place_files :: "io_env \<Rightarrow> bool \<Rightarrow> string \<Rightarrow> FileInfo list \<Rightarrow> org_run \<Rightarrow> org_run" where
  "place_files env dryRun folderPath [] st = st"
| "place_files env dryRun folderPath (file # rest) st =
     place_files env dryRun folderPath rest (place_file env dryRun folderPath file st)"

text \<open>
  The inner loop of \<open>OrganizeFiles\<close> (lines 154-187), which tests \<open>file.IsDuplicate\<close> on
  the records it ranges over.
\<close>

fun organize_category :: "io_env \<Rightarrow> bool \<Rightarrow> string \<Rightarrow> FileInfo list \<Rightarrow> org_run \<Rightarrow> org_run" where
  "organize_category env dryRun categoryPath [] st = st"
| "organize_category env dryRun categoryPath (file # rest) st =
     (if IsDuplicate file then organize_category env dryRun categoryPath rest st
      else organize_category env dryRun categoryPath rest
             (place_file env dryRun categoryPath file st))"

text \<open>
  \<open>OrganizeFiles\<close> ranges over the map \<open>Scanner.Categories\<close>; \<open>order\<close> is the order in
  which the runtime yields its keys. In a dry run, a category folder that does not exist
  is probed by creating and removing \<open>.test_permissions\<close> under the base path.
\<close>

fun organize_categories ::
  "io_env \<Rightarrow> FileOrganizer \<Rightarrow> Scanner \<Rightarrow> string list \<Rightarrow> org_run \<Rightarrow> org_run" where
  "organize_categories env fo scanner [] st = st"
| "organize_categories env fo scanner (category # rest) st =
     (case Categories scanner category of
        None \<Rightarrow> organize_categories env fo scanner rest st
      | Some catFiles \<Rightarrow>
          let folderName = (case CategoryMap fo category of None \<Rightarrow> ''Other'' | Some n \<Rightarrow> n);
              categoryPath = Join (BasePath fo) folderName
          in if \<not> DryRun fo
             then case MkdirAll env (disk st) categoryPath of
                    (True, fs') \<Rightarrow>
                      organize_categories env fo scanner rest
                        (st\<lparr>warnings := warnings st @ [FolderFailed folderName]\<rparr>)
                  | (False, fs') \<Rightarrow>
                      organize_categories env fo scanner rest
                        (organize_category env False categoryPath catFiles (st\<lparr>disk := fs'\<rparr>))
             else if \<not> stat_ok (disk st) categoryPath
             then let testPath = Join (BasePath fo) ''.test_permissions''
                  in case MkdirAll env (disk st) testPath of
                       (True, fs') \<Rightarrow>
                         organize_categories env fo scanner rest
                           (st\<lparr>warnings := warnings st @ [ProbeFailed folderName]\<rparr>)
                     | (False, fs') \<Rightarrow>
                         organize_categories env fo scanner rest
                           (organize_category env True categoryPath catFiles
                              (st\<lparr>disk := RemoveAll fs' testPath\<rparr>))
             else organize_categories env fo scanner rest
                    (organize_category env True categoryPath catFiles st))"

definition OrganizeFiles ::
  "io_env \<Rightarrow> FileOrganizer \<Rightarrow> Scanner \<Rightarrow> string list \<Rightarrow> filesys \<Rightarrow> org_run" where
  "OrganizeFiles env fo scanner order fs = organize_categories env fo scanner order (start_run fs)"

text \<open>
  \<open>OrganizeByDate\<close>. \<open>format_month\<close> stands for \<open>LastModified.Format("2006-01")\<close>. The
  first loop (lines 215-223) groups the records of \<open>Scanner.Files\<close> that are not flagged;
  the second ranges over the map \<open>dateGroups\<close> in the order the runtime yields its keys.
\<close>

fun group_by_month ::
  "(int \<Rightarrow> string) \<Rightarrow> FileInfo list \<Rightarrow> (string \<rightharpoonup> FileInfo list) \<Rightarrow> (string \<rightharpoonup> FileInfo list)" where
  "group_by_month format_month [] dateGroups = dateGroups"
| "group_by_month format_month (file # rest) dateGroups =
     (if IsDuplicate file then group_by_month format_month rest dateGroups
      else
        let dateKey = format_month (LastModified file)
        in group_by_month format_month rest
             (dateGroups(dateKey \<mapsto>
                (case dateGroups dateKey of None \<Rightarrow> [] | Some fs \<Rightarrow> fs) @ [file])))"

fun organize_months ::
  "io_env \<Rightarrow> FileOrganizer \<Rightarrow> (string \<rightharpoonup> FileInfo list) \<Rightarrow> string list \<Rightarrow> org_run \<Rightarrow> org_run" where
  "organize_months env fo dateGroups [] st = st"
| "organize_months env fo dateGroups (dateKey # rest) st =
     (case dateGroups dateKey of
        None \<Rightarrow> organize_months env fo dateGroups rest st
      | Some monthFiles \<Rightarrow>
          let datePath = Join (BasePath fo) dateKey
          in if \<not> DryRun fo
             then case MkdirAll env (disk st) datePath of
                    (True, fs') \<Rightarrow>
                      organize_months env fo dateGroups rest
                        (st\<lparr>warnings := warnings st @ [FolderFailed dateKey]\<rparr>)
                  | (False, fs') \<Rightarrow>
                      organize_months env fo dateGroups rest
                        (place_files env False datePath monthFiles (st\<lparr>disk := fs'\<rparr>))
             else organize_months env fo dateGroups rest
                    (place_files env True datePath monthFiles st))"

definition OrganizeByDate ::
  "io_env \<Rightarrow> (int \<Rightarrow> string) \<Rightarrow> FileOrganizer \<Rightarrow> Scanner \<Rightarrow> string list \<Rightarrow> filesys \<Rightarrow> org_run" where
  "OrganizeByDate env format_month fo scanner order fs =
     organize_months env fo (group_by_month format_month (Files scanner) Map.empty) order
       (start_run fs)"

text \<open>
  \<open>OrganizeBySize\<close>: the table of size categories (a bound of \<open>-1\<close> is no bound) and the
  loop over it (lines 308-369).
\<close>

definition sizeCategories :: "(string \<times> int \<times> int) list" where
  "sizeCategories =
     [(''Tiny'', 0, 1024 * 1024),
      (''Small'', 1024 * 1024, 10 * 1024 * 1024),
      (''Medium'', 10 * 1024 * 1024, 100 * 1024 * 1024),
      (''Large'', 100 * 1024 * 1024, 1024 * 1024 * 1024),
      (''Huge'', 1024 * 1024 * 1024, - 1)]"

definition in_size_category :: "string \<times> int \<times> int \<Rightarrow> FileInfo \<Rightarrow> bool" where
  "in_size_category sizeCat file =
     (case sizeCat of (name, lo, hi) \<Rightarrow>
        \<not> IsDuplicate file \<and> (lo = - 1 \<or> Size file \<ge> lo) \<and> (hi = - 1 \<or> Size file < hi))"

fun organize_sizes ::
  "io_env \<Rightarrow> FileOrganizer \<Rightarrow> Scanner \<Rightarrow> (string \<times> int \<times> int) list \<Rightarrow> org_run \<Rightarrow> org_run" where
  "organize_sizes env fo scanner [] st = st"
| "organize_sizes env fo scanner (sizeCat # rest) st =
     (let filesToMove = filter (in_size_category sizeCat) (Files scanner)
      in if filesToMove = [] then organize_sizes env fo scanner rest st
         else
           let sizePath = Join (BasePath fo) (fst sizeCat)
           in if \<not> DryRun fo
              then case MkdirAll env (disk st) sizePath of
                     (True, fs') \<Rightarrow>
                       organize_sizes env fo scanner rest
                         (st\<lparr>warnings := warnings st @ [FolderFailed (fst sizeCat)]\<rparr>)
                   | (False, fs') \<Rightarrow>
                       organize_sizes env fo scanner rest
                         (place_files env False sizePath filesToMove (st\<lparr>disk := fs'\<rparr>))
              else organize_sizes env fo scanner rest
                     (place_files env True sizePath filesToMove st))"

definition OrganizeBySize :: "io_env \<Rightarrow> FileOrganizer \<Rightarrow> Scanner \<Rightarrow> filesys \<Rightarrow> org_run" where
  "OrganizeBySize env fo scanner fs = organize_sizes env fo scanner sizeCategories (start_run fs)"

text \<open>
  \<open>ProcessZipFiles\<close> (lines 400-459) over the records of the category \<open>Archives\<close>.
  \<open>checkZipBomb\<close> and \<open>zip.OpenReader\<close> read the file that is at the record's path when
  its turn comes. The count of processed archives is kept in \<open>totalMoved\<close>.
\<close>

definition stat_size :: "filesys \<Rightarrow> string \<Rightarrow> int option" where
  "stat_size fs path = map_option (\<lambda>bytes. int (length bytes)) (contents fs path)"

definition open_zip :: "io_env \<Rightarrow> filesys \<Rightarrow> string \<Rightarrow> zip_entry list option" where
  "open_zip env fs path =
     (case contents fs path of None \<Rightarrow> None | Some bytes \<Rightarrow> zip_entries env bytes)"

definition process_zip :: "io_env \<Rightarrow> FileOrganizer \<Rightarrow> FileInfo \<Rightarrow> org_run \<Rightarrow> org_run" where
  "process_zip env fo zipFile st =
     (if IsDuplicate zipFile then st
      else if checkZipBomb (stat_size (disk st) (Path zipFile))
                (open_zip env (disk st) (Path zipFile)) \<noteq> None
      then st\<lparr>totalSkipped := totalSkipped st + 1,
              warnings := warnings st @ [SuspiciousZip (Name zipFile)]\<rparr>
      else case open_zip env (disk st) (Path zipFile) of
             None \<Rightarrow> st\<lparr>totalSkipped := totalSkipped st + 1,
                        warnings := warnings st @ [ZipOpenFailed (Name zipFile)]\<rparr>
           | Some entries \<Rightarrow>
               let category = analyzeZipContents entries;
                   folderName = (case CategoryMap fo category of None \<Rightarrow> ''Other'' | Some n \<Rightarrow> n);
                   categoryPath = Join (BasePath fo) folderName;
                   destPath = Join categoryPath (Name zipFile)
               in if DryRun fo then st\<lparr>totalMoved := totalMoved st + 1\<rparr>
                  else case MkdirAll env (disk st) categoryPath of
                         (True, fs') \<Rightarrow>
                           st\<lparr>totalSkipped := totalSkipped st + 1,
                              warnings := warnings st @ [FolderFailed folderName]\<rparr>
                       | (False, fs') \<Rightarrow>
                           (case atomicMove env fs' (Path zipFile) destPath of
                              (True, fs'') \<Rightarrow>
                                st\<lparr>disk := fs'', totalSkipped := totalSkipped st + 1,
                                   warnings := warnings st @ [MoveFailed (Name zipFile)]\<rparr>
                            | (False, fs'') \<Rightarrow>
                                st\<lparr>disk := fs'', totalMoved := totalMoved st + 1\<rparr>))"

fun process_zips :: "io_env \<Rightarrow> FileOrganizer \<Rightarrow> FileInfo list \<Rightarrow> org_run \<Rightarrow> org_run" where
  "process_zips env fo [] st = st"
| "process_zips env fo (zipFile # rest) st = process_zips env fo rest (process_zip env fo zipFile st)"

definition ProcessZipFiles :: "io_env \<Rightarrow> FileOrganizer \<Rightarrow> Scanner \<Rightarrow> filesys \<Rightarrow> org_run" where
  "ProcessZipFiles env fo scanner fs =
     process_zips env fo (case Categories scanner ''Archives'' of None \<Rightarrow> [] | Some zs \<Rightarrow> zs)
       (start_run fs)"

section \<open>Disposal of duplicates\<close>

record dup_run =
  ddisk :: filesys
  totalRemoved :: nat
  totalSpaceSaved :: int
  dwarnings :: "warning list"

definition start_dup_run :: "filesys \<Rightarrow> dup_run" where
  "start_dup_run fs = \<lparr>ddisk = fs, totalRemoved = 0, totalSpaceSaved = 0, dwarnings = []\<rparr>"

text \<open>
  Removal of one file (lines 479-491, and the same lines in \<open>RemoveDuplicatesByPattern\<close>):
  announced in a dry run, \<open>os.Remove\<close> otherwise.
\<close>

definition remove_one :: "io_env \<Rightarrow> bool \<Rightarrow> FileInfo \<Rightarrow> dup_run \<Rightarrow> dup_run" where
  "remove_one env dryRun file st =
     (if dryRun
      then st\<lparr>totalRemoved := totalRemoved st + 1,
              totalSpaceSaved := totalSpaceSaved st + Size file\<rparr>
      else case Remove env (ddisk st) (Path file) of
             (True, fs') \<Rightarrow> st\<lparr>dwarnings := dwarnings st @ [RemoveFailed (Name file)]\<rparr>
           | (False, fs') \<Rightarrow>
               st\<lparr>ddisk := fs', totalRemoved := totalRemoved st + 1,
                  totalSpaceSaved := totalSpaceSaved st + Size file\<rparr>)"

fun remove_all_but :: "io_env \<Rightarrow> bool \<Rightarrow> FileInfo \<Rightarrow> FileInfo list \<Rightarrow> dup_run \<Rightarrow> dup_run" where
  "remove_all_but env dryRun newestFile [] st = st"
| "remove_all_but env dryRun newestFile (file # rest) st =
     (if Path file = Path newestFile then remove_all_but env dryRun newestFile rest st
      else remove_all_but env dryRun newestFile rest (remove_one env dryRun file st))"

fun remove_groups ::
  "io_env \<Rightarrow> bool \<Rightarrow> (string \<rightharpoonup> FileInfo list) \<Rightarrow> string list \<Rightarrow> dup_run \<Rightarrow> dup_run" where
  "remove_groups env dryRun duplicates [] st = st"
| "remove_groups env dryRun duplicates (h # rest) st =
     (case duplicates h of
        None \<Rightarrow> remove_groups env dryRun duplicates rest st
      | Some members \<Rightarrow>
          if length members < 2 then remove_groups env dryRun duplicates rest st
          else remove_groups env dryRun duplicates rest
                 (remove_all_but env dryRun (newest members (hd members)) members st))"

text \<open>
  \<open>RemoveDuplicates\<close> (newest wins) over the map \<open>Scanner.Duplicates\<close>, whose keys the
  runtime yields in the order \<open>order\<close>.
\<close>

definition RemoveDuplicates ::
  "io_env \<Rightarrow> bool \<Rightarrow> Scanner \<Rightarrow> string list \<Rightarrow> filesys \<Rightarrow> dup_run" where
  "RemoveDuplicates env dryRun scanner order fs =
     remove_groups env dryRun (Duplicates scanner) order (start_dup_run fs)"

fun remove_copies :: "io_env \<Rightarrow> bool \<Rightarrow> FileInfo list \<Rightarrow> dup_run \<Rightarrow> dup_run" where
  "remove_copies env dryRun [] st = st"
| "remove_copies env dryRun (file # rest) st =
     remove_copies env dryRun rest (remove_one env dryRun file st)"

fun remove_pattern_groups ::
  "io_env \<Rightarrow> bool \<Rightarrow> bool \<Rightarrow> (string \<rightharpoonup> FileInfo list) \<Rightarrow> string list \<Rightarrow> dup_run \<Rightarrow> dup_run" where
  "remove_pattern_groups env dryRun go122 duplicates [] st = st"
| "remove_pattern_groups env dryRun go122 duplicates (h # rest) st =
     (case duplicates h of
        None \<Rightarrow> remove_pattern_groups env dryRun go122 duplicates rest st
      | Some members \<Rightarrow>
          (case pattern_group go122 members of
             None \<Rightarrow> remove_pattern_groups env dryRun go122 duplicates rest st
           | Some (originalFile, copyFiles) \<Rightarrow>
               remove_pattern_groups env dryRun go122 duplicates rest
                 (remove_copies env dryRun copyFiles st)))"

definition RemoveDuplicatesByPattern ::
  "io_env \<Rightarrow> bool \<Rightarrow> bool \<Rightarrow> Scanner \<Rightarrow> string list \<Rightarrow> filesys \<Rightarrow> dup_run" where
  "RemoveDuplicatesByPattern env dryRun go122 scanner order fs =
     remove_pattern_groups env dryRun go122 (Duplicates scanner) order (start_dup_run fs)"

text \<open>
  \<open>MoveDuplicatesToFolder\<close> (lines 719-792): the destination folder is created unless
  the run is dry, and a failure to create it is the function's error (\<open>None\<close>). \<open>order\<close>
  lists the keys of \<open>Scanner.Duplicates\<close>, so the map is empty when \<open>order\<close> is. The
  count of moved files is kept in \<open>totalRemoved\<close>.
\<close>

definition move_one :: "io_env \<Rightarrow> bool \<Rightarrow> string \<Rightarrow> FileInfo \<Rightarrow> dup_run \<Rightarrow> dup_run" where
  "move_one env dryRun destFolder file st =
     (let destPath = Join destFolder (Name file)
      in if dryRun
         then st\<lparr>totalRemoved := totalRemoved st + 1,
                 totalSpaceSaved := totalSpaceSaved st + Size file\<rparr>
         else case atomicMove env (ddisk st) (Path file) destPath of
                (True, fs') \<Rightarrow>
                  st\<lparr>ddisk := fs', dwarnings := dwarnings st @ [MoveFailed (Name file)]\<rparr>
              | (False, fs') \<Rightarrow>
                  st\<lparr>ddisk := fs', totalRemoved := totalRemoved st + 1,
                     totalSpaceSaved := totalSpaceSaved st + Size file\<rparr>)"

fun move_all_but :: "io_env \<Rightarrow> bool \<Rightarrow> string \<Rightarrow> FileInfo \<Rightarrow> FileInfo list \<Rightarrow> dup_run \<Rightarrow> dup_run" where
  "move_all_but env dryRun destFolder newestFile [] st = st"
| "move_all_but env dryRun destFolder newestFile (file # rest) st =
     (if Path file = Path newestFile then move_all_but env dryRun destFolder newestFile rest st
      else move_all_but env dryRun destFolder newestFile rest
             (move_one env dryRun destFolder file st))"

fun move_groups ::
  "io_env \<Rightarrow> bool \<Rightarrow> string \<Rightarrow> (string \<rightharpoonup> FileInfo list) \<Rightarrow> string list \<Rightarrow> dup_run \<Rightarrow> dup_run" where
  "move_groups env dryRun destFolder duplicates [] st = st"
| "move_groups env dryRun destFolder duplicates (h # rest) st =
     (case duplicates h of
        None \<Rightarrow> move_groups env dryRun destFolder duplicates rest st
      | Some members \<Rightarrow>
          if length members < 2 then move_groups env dryRun destFolder duplicates rest st
          else move_groups env dryRun destFolder duplicates rest
                 (move_all_but env dryRun destFolder (newest members (hd members)) members st))"

definition MoveDuplicatesToFolder ::
  "io_env \<Rightarrow> bool \<Rightarrow> Scanner \<Rightarrow> string list \<Rightarrow> string \<Rightarrow> filesys \<Rightarrow> dup_run option" where
  "MoveDuplicatesToFolder env dryRun scanner order destFolder fs =
     (if order = [] then Some (start_dup_run fs)
      else if dryRun
      then Some (move_groups env True destFolder (Duplicates scanner) order (start_dup_run fs))
      else case MkdirAll env fs destFolder of
             (True, fs') \<Rightarrow> None
           | (False, fs') \<Rightarrow>
               Some (move_groups env False destFolder (Duplicates scanner) order
                       (start_dup_run fs')))"

section \<open>Runs used in the examples\<close>

text \<open>
  \<open>run_view\<close> shows, of the state after a run, the bytes at the given paths, the two
  counters and the warnings. \<open>example_disk\<close> is the disk that \<open>example_tree\<close> is the walk of.
\<close>

definition run_view :: "string list \<Rightarrow> org_run \<Rightarrow> string option list \<times> nat \<times> nat \<times> warning list" where
  "run_view paths r = (map (contents (disk r)) paths, totalMoved r, totalSkipped r, warnings r)"

definition example_disk :: filesys where
  "example_disk =
     plain_disk [(''/dl/a.jpg'', ''X''), (''/dl/b.JPG'', ''X''), (''/dl/c.rar'', ''Y''),
                 (''/dl/.hid/z.txt'', ''X''), (''/dl/d.zip'', ''Z''), (''/dl/e.txt'', ''X'')]
       {''/dl'', ''/dl/.hid''}"

text \<open>Organizing the example scan by category, for real.\<close>

definition by_category_run :: "org_run option" where
  "by_category_run =
     map_option
       (\<lambda>scanner. OrganizeFiles ok_env (NewFileOrganizer False ''/dl'') scanner
                     [''Documents'', ''Images'', ''Archives''] example_disk)
       (ScanDirectory example_md5 [''hX'', ''hY''] ''/dl'' example_tree)"

text \<open>
  Two archives of the same name, one of them already in \<open>Images\<close>; both hold one image.
\<close>

definition zip_tree :: entry where
  "zip_tree = Directory ''dl'' True
     [Directory ''Images'' True [RegFile ''a.zip'' ''ZB'' 3 True True],
      RegFile ''a.zip'' ''ZA'' 4 True True]"

definition zip_disk :: filesys where
  "zip_disk =
     plain_disk [(''/dl/Images/a.zip'', ''ZB''), (''/dl/a.zip'', ''ZA'')] {''/dl'', ''/dl/Images''}"

definition image_zip :: "string \<Rightarrow> zip_entry list option" where
  "image_zip bytes = (if bytes = ''ZA'' \<or> bytes = ''ZB'' then Some [jpg_entry] else None)"

definition zip_env :: io_env where
  "zip_env = ok_env\<lparr>zip_entries := image_zip\<rparr>"

definition process_zips_run :: "org_run option" where
  "process_zips_run =
     map_option
       (\<lambda>scanner. ProcessZipFiles zip_env (NewFileOrganizer False ''/dl'') scanner zip_disk)
       (ScanDirectory example_md5 [''hZA'', ''hZB''] ''/dl'' zip_tree)"

text \<open>
  A disk on which a folder \<open>.test_permissions\<close> with a file in it exists before the run,
  and a dry run by category over it.
\<close>

definition probe_tree :: entry where
  "probe_tree = Directory ''dl'' True
     [Directory ''.test_permissions'' True [RegFile ''keep.txt'' ''K'' 1 True True],
      RegFile ''a.jpg'' ''X'' 5 True True]"

definition probe_disk :: filesys where
  "probe_disk =
     plain_disk [(''/dl/.test_permissions/keep.txt'', ''K''), (''/dl/a.jpg'', ''X'')]
       {''/dl'', ''/dl/.test_permissions''}"

definition dry_run_by_category :: "org_run option" where
  "dry_run_by_category =
     map_option
       (\<lambda>scanner. OrganizeFiles ok_env (NewFileOrganizer True ''/dl'') scanner [''Images'']
                     probe_disk)
       (ScanDirectory example_md5 [''hX''] ''/dl'' probe_tree)"

section \<open>Auxiliary notions for the proofs about runs\<close>

text \<open>
  \<open>probe_free\<close>: nothing exists at or below \<open>.test_permissions\<close> under the base path,
  and the folders above it exist.
\<close>

definition probe_free :: "string \<Rightarrow> filesys \<Rightarrow> bool" where
  "probe_free basePath fs =
     (let testPath = Join basePath ''.test_permissions''
      in (\<forall>q. under testPath q \<longrightarrow> links fs q = None \<and> q \<notin> folders fs) \<and>
         set (ancestors testPath) \<subseteq> folders fs)"

text \<open>
  \<open>holds_file\<close>: on a well-formed disk, the path is a hard link to the file \<open>i\<close>, which has
  the given bytes.
\<close>

definition holds_file :: "filesys \<Rightarrow> string \<Rightarrow> nat \<Rightarrow> string \<Rightarrow> bool" where
  "holds_file fs p i bytes =
     (well_formed fs \<and> links fs p = Some (FileLink i) \<and> bytes_of fs i = Some bytes)"

text \<open>
  The four conditions of the specification of \<open>checkZipBomb\<close>, on the file size and the
  listed entries: the sizes are added as the unbounded numbers they denote.
\<close>

definition screening_rejects :: "int \<Rightarrow> zip_entry list \<Rightarrow> bool" where
  "screening_rejects fileSize entries =
     (fileSize > maxZipSize \<or>
      length entries > maxZipEntries \<or>
      (\<exists>f \<in> set entries. suspicious_ratio f) \<or>
      (\<Sum>f \<leftarrow> entries. uint (UncompressedSize64 f)) > maxZipSize * 10)"

text \<open>A group of two copies, none of which looks original, and the disk they are on.\<close>

definition copies_scanner :: Scanner where
  "copies_scanner =
     \<lparr>Files = [(example_file ''a (1).txt'' 1)\<lparr>IsDuplicate := True\<rparr>,
               (example_file ''a (2).txt'' 2)\<lparr>IsDuplicate := True\<rparr>],
      Duplicates = [''hX'' \<mapsto> [example_file ''a (1).txt'' 1, example_file ''a (2).txt'' 2]],
      Categories = [''Documents'' \<mapsto> [example_file ''a (1).txt'' 1, example_file ''a (2).txt'' 2]]\<rparr>"

definition copies_disk :: filesys where
  "copies_disk =
     plain_disk [(''/dl/a (1).txt'', ''X''), (''/dl/a (2).txt'', ''X'')] {''/dl''}"

definition dup_view :: "string list \<Rightarrow> dup_run \<Rightarrow> string option list \<times> nat \<times> warning list" where
  "dup_view paths r = (map (contents (ddisk r)) paths, totalRemoved r, dwarnings r)"

section \<open>Properties of the scanner\<close>

lemma visit_file_cases:
  "visit_file md5hex path n bytes mtime openable readable s = s \<or>
   (\<exists>fi. as_scanned fi \<and> Path fi = path \<and>
      visit_file md5hex path n bytes mtime openable readable s = add_record fi s)"
proof (cases "HasPrefix n ''.'' \<or> Contains path ''.app/Contents/'' \<or> \<not> openable")
  case True
  then show ?thesis by (auto simp: visit_file_def)
next
  case False
  define ext where "ext = norm_ext n"
  define fi where "fi = \<lparr>Path = path, Name = n, Size = int (length bytes),
                        Extension = ext, Category = determineCategory ext n,
                        Hash = (if readable then md5hex bytes else []),
                        LastModified = mtime, IsDuplicate = False,
                        IsZip = (ext = ''.zip'')\<rparr>"
  have "as_scanned fi" "Path fi = path"
    by (simp_all add: as_scanned_def fi_def ext_def)
  moreover have "visit_file md5hex path n bytes mtime openable readable s = add_record fi s"
    using False by (simp add: visit_file_def Let_def add_record_def fi_def ext_def norm_ext_def)
  ultimately show ?thesis by blast
qed

lemma all_records_add_record:
  assumes "all_records P s" and "P fi"
  shows "all_records P (add_record fi s)"
proof -
  have "\<forall>f \<in> set (Files (add_record fi s)). P f"
    using assms by (auto simp: all_records_def add_record_def)
  moreover have "\<forall>f \<in> set fs. P f" if "Categories (add_record fi s) c = Some fs" for c fs
  proof (cases "c = Category fi")
    case True
    with that have "fs = (case Categories s c of None \<Rightarrow> [] | Some fs \<Rightarrow> fs) @ [fi]"
      by (simp add: add_record_def)
    then show ?thesis
      using assms by (cases "Categories s c") (auto simp: all_records_def)
  next
    case False
    with that have "Categories s c = Some fs" by (simp add: add_record_def)
    then show ?thesis using assms by (auto simp: all_records_def)
  qed
  ultimately show ?thesis unfolding all_records_def by blast
qed

lemma visit_file_as_scanned:
  assumes "all_records as_scanned s"
  shows "all_records as_scanned (visit_file md5hex path n bytes mtime openable readable s)"
  using visit_file_cases [of md5hex path n bytes mtime openable readable s] assms
  by (auto intro: all_records_add_record)

lemma visit_file_Duplicates:
  "Duplicates (visit_file md5hex path n bytes mtime openable readable s) = Duplicates s"
  by (simp add: visit_file_def Let_def)

lemma walk_as_scanned:
  "walk md5hex path e s = Some s' \<Longrightarrow> all_records as_scanned s \<Longrightarrow> all_records as_scanned s'"
  "walk_entries md5hex dir es s = Some s' \<Longrightarrow> all_records as_scanned s \<Longrightarrow> all_records as_scanned s'"
proof (induction md5hex path e s and md5hex dir es s arbitrary: s' and s' rule: walk_walk_entries.induct)
  case (1 md5hex path n s)
  then show ?case by simp
next
  case (2 md5hex path n bytes mtime openable readable s)
  then show ?case using visit_file_as_scanned by auto
next
  case (3 md5hex path n listable es s)
  then show ?case by (simp split: if_splits)
next
  case (4 md5hex dir s)
  then show ?case by simp
next
  case (5 md5hex dir e es s)
  from "5.prems"(1) obtain s1 where s1: "walk md5hex (Join dir (entry_name e)) e s = Some s1"
    and rest: "walk_entries md5hex dir es s1 = Some s'"
    by (auto split: option.splits)
  from "5.IH"(1) [OF s1 "5.prems"(2)] have "all_records as_scanned s1" .
  from "5.IH"(2) [OF s1 rest this] show ?case .
qed

lemma walk_Duplicates:
  "walk md5hex path e s = Some s' \<Longrightarrow> Duplicates s' = Duplicates s"
  "walk_entries md5hex dir es s = Some s' \<Longrightarrow> Duplicates s' = Duplicates s"
proof (induction md5hex path e s and md5hex dir es s arbitrary: s' and s' rule: walk_walk_entries.induct)
  case (1 md5hex path n s)
  then show ?case by simp
next
  case (2 md5hex path n bytes mtime openable readable s)
  then show ?case using visit_file_Duplicates by auto
next
  case (3 md5hex path n listable es s)
  then show ?case by (simp split: if_splits)
next
  case (4 md5hex dir s)
  then show ?case by simp
next
  case (5 md5hex dir e es s)
  from "5.prems"(1) obtain s1 where s1: "walk md5hex (Join dir (entry_name e)) e s = Some s1"
    and rest: "walk_entries md5hex dir es s1 = Some s'"
    by (auto split: option.splits)
  from "5.IH"(1) [OF s1] "5.IH"(2) [OF s1 rest] show ?case by simp
qed

lemma group_by_hash_nohash: "group_by_hash fs m [] = m []"
  by (induction fs arbitrary: m) simp_all

lemma group_by_hash_hash:
  "h \<noteq> [] \<Longrightarrow> group_by_hash fs m h =
     (if filter (\<lambda>f. Hash f = h) fs = [] then m h
      else Some ((case m h of None \<Rightarrow> [] | Some l \<Rightarrow> l) @ filter (\<lambda>f. Hash f = h) fs))"
proof (induction fs arbitrary: m)
  case Nil
  then show ?case by simp
next
  case (Cons f fs)
  show ?case
    using Cons.prems by (cases "m h") (simp_all add: Cons.IH [OF Cons.prems])
qed

lemma group_by_hash_empty:
  "group_by_hash fs Map.empty h =
     (if h = [] \<or> filter (\<lambda>f. Hash f = h) fs = [] then None
      else Some (filter (\<lambda>f. Hash f = h) fs))"
  by (cases "h = []") (simp_all add: group_by_hash_nohash group_by_hash_hash)

lemma mark_path_clear: "map clear_flag (mark_path p fs) = map clear_flag fs"
  by (induction fs) (simp_all add: clear_flag_def)

lemma mark_group_clear: "map clear_flag (mark_group gs fs) = map clear_flag fs"
  by (induction gs arbitrary: fs) (simp_all add: mark_path_clear)

lemma mark_duplicates_clear:
  "map clear_flag (Files (mark_duplicates hm order s)) = map clear_flag (Files s)"
  by (induction hm order s rule: mark_duplicates.induct)
     (simp_all add: mark_group_clear split: option.splits)

lemma mark_duplicates_Categories:
  "Categories (mark_duplicates hm order s) = Categories s"
  by (induction hm order s rule: mark_duplicates.induct) (simp_all split: option.splits)

lemma mark_duplicates_Duplicates:
  "Duplicates (mark_duplicates hm order s) h =
     (if h \<in> set order \<and> (\<exists>fs. hm h = Some fs \<and> length fs > 1) then hm h else Duplicates s h)"
  by (induction hm order s rule: mark_duplicates.induct) (auto split: option.splits)

lemma mark_path_map:
  "distinct (map Path fs) \<Longrightarrow>
   mark_path p fs = map (\<lambda>f. if Path f = p then f\<lparr>IsDuplicate := True\<rparr> else f) fs"
proof (induction fs)
  case Nil
  then show ?case by simp
next
  case (Cons f fs)
  show ?case
  proof (cases "Path f = p")
    case True
    have "\<forall>x \<in> set fs. Path x \<noteq> p"
      using Cons.prems True by (auto simp: image_iff)
    then have "map (\<lambda>f. if Path f = p then f\<lparr>IsDuplicate := True\<rparr> else f) fs = fs"
      by (intro map_idI) simp
    with True show ?thesis by simp
  next
    case False
    with Cons show ?thesis by simp
  qed
qed

lemma map_Path_mark_set: "map Path (mark_set P fs) = map Path fs"
  by (induction fs) (simp_all add: mark_set_def)

lemma mark_set_empty: "mark_set {} fs = fs"
  by (simp add: mark_set_def)

lemma mark_path_mark_set:
  assumes "distinct (map Path fs)"
  shows "mark_path p (mark_set P fs) = mark_set (insert p P) fs"
proof -
  have "distinct (map Path (mark_set P fs))"
    using assms by (simp add: map_Path_mark_set)
  then have "mark_path p (mark_set P fs) =
      map (\<lambda>f. if Path f = p then f\<lparr>IsDuplicate := True\<rparr> else f) (mark_set P fs)"
    by (rule mark_path_map)
  also have "\<dots> = mark_set (insert p P) fs"
    by (simp add: mark_set_def)
  finally show ?thesis .
qed

lemma mark_group_mark_set:
  "distinct (map Path fs) \<Longrightarrow> mark_group gs (mark_set P fs) = mark_set (Path ` set gs \<union> P) fs"
proof (induction gs arbitrary: P)
  case Nil
  then show ?case by simp
next
  case (Cons g gs)
  then show ?case by (simp add: mark_path_mark_set)
qed

lemma dup_paths_Nil: "dup_paths hm [] = {}"
  by (simp add: dup_paths_def)

lemma dup_paths_Cons:
  "dup_paths hm (h # hs) =
     (case hm h of None \<Rightarrow> {} | Some fs \<Rightarrow> if length fs > 1 then Path ` set fs else {})
      \<union> dup_paths hm hs"
  by (auto simp: dup_paths_def split: option.splits)

lemma mark_duplicates_Files:
  "distinct (map Path fs0) \<Longrightarrow> Files s = mark_set P fs0 \<Longrightarrow>
   Files (mark_duplicates hm order s) = mark_set (P \<union> dup_paths hm order) fs0"
proof (induction hm order s arbitrary: P rule: mark_duplicates.induct)
  case (1 hashMap s)
  then show ?case by (simp add: dup_paths_Nil)
next
  case (2 hashMap h hs s)
  show ?case
  proof (cases "hashMap h")
    case None
    with 2 show ?thesis by (simp add: dup_paths_Cons)
  next
    case (Some fs)
    show ?thesis
    proof (cases "length fs > 1")
      case True
      let ?s = "s\<lparr>Duplicates := (Duplicates s)(h \<mapsto> fs), Files := mark_group fs (Files s)\<rparr>"
      have "Files ?s = mark_set (Path ` set fs \<union> P) fs0"
        using "2.prems" by (simp add: mark_group_mark_set)
      from "2.IH"(2) [OF Some True "2.prems"(1) this]
      show ?thesis using Some True by (simp add: dup_paths_Cons Un_ac)
    next
      case False
      from "2.IH"(3) [OF Some False "2.prems"] show ?thesis
        using Some False by (simp add: dup_paths_Cons)
    qed
  qed
qed

lemma NewScanner_as_scanned: "all_records as_scanned NewScanner"
  by (simp add: all_records_def NewScanner_def)

lemma as_scanned_clear: "as_scanned f \<Longrightarrow> clear_flag f = f"
  by (simp add: as_scanned_def clear_flag_def)

lemma scan_decompose:
  assumes "ScanDirectory md5hex order dirPath tree = Some s"
  obtains s0 where "walk md5hex dirPath tree NewScanner = Some s0"
    and "s = findDuplicates order s0"
    and "all_records as_scanned s0"
    and "Duplicates s0 = Map.empty"
    and "map clear_flag (Files s) = Files s0"
    and "Categories s = Categories s0"
proof -
  from assms obtain s0 where w: "walk md5hex dirPath tree NewScanner = Some s0"
    and s: "s = findDuplicates order s0"
    by (auto simp: ScanDirectory_def split: option.splits)
  have a: "all_records as_scanned s0"
    using walk_as_scanned(1) [OF w NewScanner_as_scanned] .
  have d: "Duplicates s0 = Map.empty"
    using walk_Duplicates(1) [OF w] by (simp add: NewScanner_def)
  have "map clear_flag (Files s0) = Files s0"
    using a by (intro map_idI) (simp add: all_records_def as_scanned_clear)
  then have f: "map clear_flag (Files s) = Files s0"
    by (simp add: s findDuplicates_def mark_duplicates_clear)
  have c: "Categories s = Categories s0"
    by (simp add: s findDuplicates_def mark_duplicates_Categories)
  from w s a d f c show thesis by (rule that)
qed

lemma determineCategory_Archives:
  "determineCategory ext name = ''Archives'' \<longleftrightarrow> ext \<in> set archive_exts"
  by (simp add: determineCategory_def Let_def image_exts_def document_exts_def video_exts_def
        music_exts_def application_exts_def archive_exts_def diskimage_exts_def)

text \<open>
  Claim C5, as amended. For every file of a scan, \<open>Extension\<close> is the lower-cased
  extension of the name (or \<open>no_extension\<close>), the flag \<open>IsZip\<close> is true if and only
  if that extension is \<open>.zip\<close>, and the category is \<open>Archives\<close> if and only if the
  extension is one of \<open>.zip .rar .7z .tar .gz .bz2\<close>.
\<close>

theorem scanned_IsZip_only_zip:
  assumes "ScanDirectory md5hex order dirPath tree = Some s" and "f \<in> set (Files s)"
  shows "Extension f = (if ToLower (Ext (Name f)) = [] then ''no_extension''
                        else ToLower (Ext (Name f))) \<and>
         (IsZip f \<longleftrightarrow> Extension f = ''.zip'') \<and>
         (Category f = ''Archives'' \<longleftrightarrow> Extension f \<in> set archive_exts)"
proof -
  from assms(1) obtain s0 where a: "all_records as_scanned s0"
    and f: "map clear_flag (Files s) = Files s0"
    by (rule scan_decompose)
  from assms(2) have "clear_flag f \<in> set (map clear_flag (Files s))" by simp
  with f a have "as_scanned (clear_flag f)" by (simp add: all_records_def)
  then show ?thesis
    by (simp add: as_scanned_def clear_flag_def norm_ext_def determineCategory_Archives)
qed

text \<open>
  Claim C10. Let \<open>s0\<close> be the scanner as the walk leaves it, before duplicate
  detection. Detection changes nothing in \<open>Files\<close> but the flag, leaves \<open>Categories\<close>
  as the walk built it, and every group it stores in \<open>Duplicates\<close> is made of records
  of \<open>s0\<close>, copied before any flag is set. So after every scan no record stored in
  \<open>Categories\<close> or in a group of \<open>Duplicates\<close> has \<open>IsDuplicate\<close> set: the flag is only
  ever set on elements of \<open>Files\<close>.
\<close>

theorem scan_copies_never_flagged:
  assumes "ScanDirectory md5hex order dirPath tree = Some s"
  shows "(\<exists>s0. walk md5hex dirPath tree NewScanner = Some s0 \<and>
            map clear_flag (Files s) = Files s0 \<and>
            Categories s = Categories s0 \<and>
            (\<forall>h fs. Duplicates s h = Some fs \<longrightarrow> fs = filter (\<lambda>f. Hash f = h) (Files s0))) \<and>
         (\<forall>c fs. Categories s c = Some fs \<longrightarrow> (\<forall>f \<in> set fs. \<not> IsDuplicate f)) \<and>
         (\<forall>h fs. Duplicates s h = Some fs \<longrightarrow> (\<forall>f \<in> set fs. \<not> IsDuplicate f))"
proof -
  from assms obtain s0 where w: "walk md5hex dirPath tree NewScanner = Some s0"
    and s: "s = findDuplicates order s0"
    and a: "all_records as_scanned s0"
    and d: "Duplicates s0 = Map.empty"
    and f: "map clear_flag (Files s) = Files s0"
    and c: "Categories s = Categories s0"
    by (rule scan_decompose)
  have cat: "\<not> IsDuplicate f" if "Categories s c = Some fs" "f \<in> set fs" for c fs f
    using that a c by (auto simp: all_records_def as_scanned_def)
  have grp: "fs = filter (\<lambda>f. Hash f = h) (Files s0)" if "Duplicates s h = Some fs" for h fs
  proof -
    from that have "group_by_hash (Files s0) Map.empty h = Some fs"
      by (simp add: s findDuplicates_def mark_duplicates_Duplicates d split: if_splits)
    then show ?thesis by (simp add: group_by_hash_empty split: if_splits)
  qed
  have dup: "\<not> IsDuplicate f" if "Duplicates s h = Some fs" "f \<in> set fs" for h fs f
  proof -
    from grp [OF that(1)] that(2) have "f \<in> set (Files s0)" by simp
    with a show ?thesis by (simp add: all_records_def as_scanned_def)
  qed
  from w f c grp have "\<exists>s0. walk md5hex dirPath tree NewScanner = Some s0 \<and>
            map clear_flag (Files s) = Files s0 \<and>
            Categories s = Categories s0 \<and>
            (\<forall>h fs. Duplicates s h = Some fs \<longrightarrow> fs = filter (\<lambda>f. Hash f = h) (Files s0))"
    by blast
  with cat dup show ?thesis by blast
qed

lemma findDuplicates_Duplicates:
  assumes "Duplicates s0 = Map.empty"
  shows "Duplicates (findDuplicates order s0) k =
     (if in_dup_group order (Files s0) k then Some (filter (\<lambda>f. Hash f = k) (Files s0)) else None)"
  using assms
  by (auto simp: findDuplicates_def mark_duplicates_Duplicates group_by_hash_empty in_dup_group_def)

lemma dup_paths_group_by_hash:
  assumes "distinct (map Path fs)" and "f \<in> set fs"
  shows "Path f \<in> dup_paths (group_by_hash fs Map.empty) order \<longleftrightarrow> in_dup_group order fs (Hash f)"
proof
  assume "Path f \<in> dup_paths (group_by_hash fs Map.empty) order"
  then obtain k g where k: "k \<in> set order" "k \<noteq> []" "length (filter (\<lambda>f. Hash f = k) fs) > 1"
    and g: "g \<in> set fs" "Hash g = k" "Path g = Path f"
    by (auto simp: dup_paths_def group_by_hash_empty split: if_splits)
  from assms(1) have "inj_on Path (set fs)" by (simp add: distinct_map)
  with g assms(2) have "g = f" by (auto dest: inj_onD)
  with k g show "in_dup_group order fs (Hash f)" by (simp add: in_dup_group_def)
next
  assume a: "in_dup_group order fs (Hash f)"
  have ne: "filter (\<lambda>g. Hash g = Hash f) fs \<noteq> []"
    using assms(2) by (auto simp: filter_empty_conv)
  have "group_by_hash fs Map.empty (Hash f) = Some (filter (\<lambda>g. Hash g = Hash f) fs)"
    using a ne by (simp add: group_by_hash_empty in_dup_group_def)
  moreover have "Path f \<in> Path ` set (filter (\<lambda>g. Hash g = Hash f) fs)"
    using assms(2) by auto
  ultimately show "Path f \<in> dup_paths (group_by_hash fs Map.empty) order"
    using a unfolding dup_paths_def in_dup_group_def by blast
qed

lemma findDuplicates_Files:
  assumes "distinct (map Path (Files s0))"
  shows "Files (findDuplicates order s0) =
     map (\<lambda>f. if in_dup_group order (Files s0) (Hash f) then f\<lparr>IsDuplicate := True\<rparr> else f)
       (Files s0)"
proof -
  have "Files s0 = mark_set {} (Files s0)" by (simp add: mark_set_empty)
  from mark_duplicates_Files [OF assms this]
  have "Files (findDuplicates order s0) =
      mark_set (dup_paths (group_by_hash (Files s0) Map.empty) order) (Files s0)"
    by (simp add: findDuplicates_def)
  also have "\<dots> = map (\<lambda>f. if in_dup_group order (Files s0) (Hash f)
                          then f\<lparr>IsDuplicate := True\<rparr> else f) (Files s0)"
    unfolding mark_set_def
    by (rule map_cong [OF refl]) (simp add: dup_paths_group_by_hash [OF assms])
  finally show ?thesis .
qed

lemma distinct_all_equal_length:
  assumes "distinct xs" and "\<And>x y. x \<in> set xs \<Longrightarrow> y \<in> set xs \<Longrightarrow> x = y"
  shows "length xs \<le> 1"
proof (cases xs)
  case Nil
  then show ?thesis by simp
next
  case (Cons x ys)
  have "set xs \<subseteq> {x}"
  proof
    fix y assume "y \<in> set xs"
    moreover have "x \<in> set xs" using Cons by simp
    ultimately have "y = x" by (rule assms(2))
    then show "y \<in> {x}" by simp
  qed
  then have "card (set xs) \<le> card {x}" by (intro card_mono) simp_all
  then show ?thesis using distinct_card [OF assms(1)] by simp
qed

text \<open>
  Claim C8. Take a scan whose records have pairwise distinct paths, in which at least two
  files carry the non-empty hash \<open>h\<close> (the N files of identical content) and every other
  non-empty hash value is carried by one file only (the M files of distinct content);
  any number of files may carry the empty hash (their hashing failed). \<open>order\<close> lists the keys of the hash table. Then
  \<open>Duplicates\<close> has exactly one group, under \<open>h\<close>, made of the N records in scan order
  (as they were before marking); a record of \<open>Files\<close> is flagged if and only if its hash
  is \<open>h\<close>; records with the empty hash are not flagged and the empty hash has no group.
\<close>

theorem scan_one_group_of_identical_files:
  assumes scan: "ScanDirectory md5hex order dirPath tree = Some s"
    and paths: "distinct (map Path (Files s))"
    and keys: "set order = {Hash f | f. f \<in> set (Files s) \<and> Hash f \<noteq> []}"
    and h: "h \<noteq> []"
    and N: "2 \<le> length (filter (\<lambda>f. Hash f = h) (Files s))"
    and M: "\<forall>f \<in> set (Files s). \<forall>g \<in> set (Files s).
              Hash f = Hash g \<and> Hash f \<noteq> h \<and> Hash f \<noteq> [] \<longrightarrow> Path f = Path g"
  shows "dom (Duplicates s) = {h} \<and>
         Duplicates s h = Some (map clear_flag (filter (\<lambda>f. Hash f = h) (Files s))) \<and>
         (\<forall>f \<in> set (Files s). IsDuplicate f \<longleftrightarrow> Hash f = h) \<and>
         (\<forall>f \<in> set (Files s). Hash f = [] \<longrightarrow> \<not> IsDuplicate f) \<and> Duplicates s [] = None"
proof -
  from scan obtain s0 where s: "s = findDuplicates order s0"
    and a: "all_records as_scanned s0"
    and d: "Duplicates s0 = Map.empty"
    and f: "map clear_flag (Files s) = Files s0"
    by (rule scan_decompose)
  let ?fs0 = "Files s0"
  have path0: "map Path ?fs0 = map Path (Files s)"
    unfolding f [symmetric] by (simp add: clear_flag_def comp_def)
  have hash0: "map Hash ?fs0 = map Hash (Files s)"
    unfolding f [symmetric] by (simp add: clear_flag_def comp_def)
  have dist0: "distinct (map Path ?fs0)" using paths by (simp add: path0)
  have inj0: "inj_on Path (set ?fs0)" and distfs0: "distinct ?fs0"
    using dist0 by (simp_all add: distinct_map)
  have filt: "filter (\<lambda>f. Hash f = k) ?fs0 = map clear_flag (filter (\<lambda>f. Hash f = k) (Files s))" for k
    unfolding f [symmetric] by (simp add: filter_map comp_def clear_flag_def)
  have keys0: "set order = {Hash f | f. f \<in> set ?fs0 \<and> Hash f \<noteq> []}"
  proof -
    have "{Hash f | f. f \<in> set ?fs0 \<and> Hash f \<noteq> []} = set (map Hash ?fs0) - {[]}" by auto
    also have "\<dots> = set (map Hash (Files s)) - {[]}" by (simp only: hash0)
    also have "\<dots> = {Hash f | f. f \<in> set (Files s) \<and> Hash f \<noteq> []}" by auto
    finally show ?thesis using keys by simp
  qed
  have M0: "f = g"
    if "f \<in> set ?fs0" "g \<in> set ?fs0" "Hash f = Hash g" "Hash f \<noteq> h" "Hash f \<noteq> []" for f g
  proof -
    from that(1) have "f \<in> clear_flag ` set (Files s)" by (simp add: f [symmetric])
    then obtain f' where f': "f' \<in> set (Files s)" "f = clear_flag f'" by (rule imageE)
    from that(2) have "g \<in> clear_flag ` set (Files s)" by (simp add: f [symmetric])
    then obtain g' where g': "g' \<in> set (Files s)" "g = clear_flag g'" by (rule imageE)
    from that(3,4,5) f' g' have "Hash f' = Hash g' \<and> Hash f' \<noteq> h \<and> Hash f' \<noteq> []"
      by (simp add: clear_flag_def)
    with M f'(1) g'(1) have "Path f' = Path g'" by blast
    then have "Path f = Path g" using f' g' by (simp add: clear_flag_def)
    with inj0 that(1,2) show ?thesis by (auto dest: inj_onD)
  qed
  have Nh: "length (filter (\<lambda>f. Hash f = h) ?fs0) > 1" using N by (simp add: filt)
  then have "filter (\<lambda>f. Hash f = h) ?fs0 \<noteq> []" by auto
  then obtain x where "x \<in> set ?fs0" "Hash x = h" by (auto simp: filter_empty_conv)
  with h have hin: "h \<in> set order" unfolding keys0 by auto
  have grp: "in_dup_group order ?fs0 k \<longleftrightarrow> k = h" for k
  proof
    assume k: "in_dup_group order ?fs0 k"
    show "k = h"
    proof (rule ccontr)
      assume "k \<noteq> h"
      have "length (filter (\<lambda>f. Hash f = k) ?fs0) \<le> 1"
      proof (rule distinct_all_equal_length)
        show "distinct (filter (\<lambda>f. Hash f = k) ?fs0)" using distfs0 by simp
        fix x y
        assume "x \<in> set (filter (\<lambda>f. Hash f = k) ?fs0)" "y \<in> set (filter (\<lambda>f. Hash f = k) ?fs0)"
        then have "x \<in> set ?fs0" "y \<in> set ?fs0" "Hash x = Hash y" "Hash x \<noteq> h"
          "Hash x \<noteq> []"
          using \<open>k \<noteq> h\<close> k by (simp_all add: in_dup_group_def)
        then show "x = y" by (rule M0)
      qed
      with k show False by (simp add: in_dup_group_def)
    qed
  next
    assume "k = h"
    with hin h Nh show "in_dup_group order ?fs0 k" by (simp add: in_dup_group_def)
  qed
  have D: "Duplicates s k = (if k = h then Some (filter (\<lambda>f. Hash f = k) ?fs0) else None)" for k
    by (simp add: s findDuplicates_Duplicates [OF d] grp)
  have F: "Files s = map (\<lambda>f. if Hash f = h then f\<lparr>IsDuplicate := True\<rparr> else f) ?fs0"
    by (simp add: s findDuplicates_Files [OF dist0] grp)
  have unfl: "\<forall>f \<in> set ?fs0. \<not> IsDuplicate f"
    using a by (simp add: all_records_def as_scanned_def)
  have c1: "dom (Duplicates s) = {h}" by (auto simp: D dom_def)
  have c2: "Duplicates s h = Some (map clear_flag (filter (\<lambda>f. Hash f = h) (Files s)))"
    by (simp add: D filt)
  have c3: "\<forall>f \<in> set (Files s). IsDuplicate f \<longleftrightarrow> Hash f = h"
  proof
    fix g assume "g \<in> set (Files s)"
    then obtain g0 where "g0 \<in> set ?fs0"
      and "g = (if Hash g0 = h then g0\<lparr>IsDuplicate := True\<rparr> else g0)"
      by (subst (asm) F) auto
    with unfl show "IsDuplicate g \<longleftrightarrow> Hash g = h" by auto
  qed
  from c3 h have c4: "\<forall>f \<in> set (Files s). Hash f = [] \<longrightarrow> \<not> IsDuplicate f" by auto
  from h have c5: "Duplicates s [] = None" by (simp add: D)
  from c1 c2 c3 c4 c5 show ?thesis by blast
qed

text \<open>
  The paths of the records of a scan are pairwise distinct, as the theorem for claim C8
  assumes, whenever the tree is one a file system can present.
\<close>

lemma under_refl: "under p p"
  by (simp add: under_def)

lemma HasPrefix_append: "HasPrefix (p @ r) p"
  by (simp add: HasPrefix_def)

lemma HasPrefix_iff: "HasPrefix s p \<longleftrightarrow> (\<exists>r. s = p @ r)"
proof
  assume "HasPrefix s p"
  then have "s = p @ drop (length p) s"
    by (metis HasPrefix_def append_take_drop_id)
  then show "\<exists>r. s = p @ r" ..
next
  assume "\<exists>r. s = p @ r"
  then show "HasPrefix s p" by (auto simp: HasPrefix_def)
qed

lemma under_Join: "under (Join d n) p \<Longrightarrow> under d p"
  by (auto simp: under_def Join_def HasPrefix_iff)

lemma under_Join_name:
  assumes "under (Join d n) p" and "CHR ''/'' \<notin> set n"
  shows "takeWhile (\<lambda>c. c \<noteq> CHR ''/'') (drop (Suc (length d)) p) = n"
proof -
  from assms(1) consider "p = d @ ''/'' @ n" | r where "p = d @ ''/'' @ n @ ''/'' @ r"
    by (auto simp: under_def Join_def HasPrefix_iff)
  then show ?thesis
  proof cases
    case 1
    then have "drop (Suc (length d)) p = n" by simp
    with assms(2) show ?thesis by (auto simp: takeWhile_eq_all_conv)
  next
    case 2
    then have "drop (Suc (length d)) p = n @ CHR ''/'' # r" by simp
    with assms(2) show ?thesis by (auto simp: takeWhile_tail)
  qed
qed

lemma under_Join_inj:
  assumes "under (Join d n) p" "under (Join d n') p" "CHR ''/'' \<notin> set n" "CHR ''/'' \<notin> set n'"
  shows "n = n'"
  using under_Join_name [OF assms(1,3)] under_Join_name [OF assms(2,4)] by simp

lemma visit_file_new:
  "\<exists>new. Files (visit_file md5hex path n bytes mtime openable readable s) = Files s @ new \<and>
         distinct (map Path new) \<and> (\<forall>f \<in> set new. Path f = path)"
proof -
  from visit_file_cases [of md5hex path n bytes mtime openable readable s]
  consider "visit_file md5hex path n bytes mtime openable readable s = s"
    | fi where "Path fi = path"
        "visit_file md5hex path n bytes mtime openable readable s = add_record fi s"
    by blast
  then show ?thesis
  proof cases
    case 1
    then have "Files (visit_file md5hex path n bytes mtime openable readable s) = Files s @ []"
      by simp
    then show ?thesis by (intro exI [of _ "[]"]) simp
  next
    case 2
    then have "Files (visit_file md5hex path n bytes mtime openable readable s) = Files s @ [fi]"
      by (simp add: add_record_def)
    with 2(1) show ?thesis by (intro exI [of _ "[fi]"]) simp
  qed
qed

lemma walk_new_paths:
  "walk md5hex path e s = Some s' \<Longrightarrow> plain_names e \<Longrightarrow>
     \<exists>new. Files s' = Files s @ new \<and> distinct (map Path new) \<and>
           (\<forall>f \<in> set new. under path (Path f))"
  "walk_entries md5hex dir es s = Some s' \<Longrightarrow> distinct (map entry_name es) \<Longrightarrow>
     (\<forall>e \<in> set es. CHR ''/'' \<notin> set (entry_name e) \<and> plain_names e) \<Longrightarrow>
     \<exists>new. Files s' = Files s @ new \<and> distinct (map Path new) \<and>
           (\<forall>f \<in> set new. \<exists>e \<in> set es. under (Join dir (entry_name e)) (Path f))"
proof (induction md5hex path e s and md5hex dir es s arbitrary: s' and s'
       rule: walk_walk_entries.induct)
  case (1 md5hex path n s)
  then show ?case by simp
next
  case (2 md5hex path n bytes mtime openable readable s)
  from visit_file_new [of md5hex path n bytes mtime openable readable s] "2.prems"(1)
  show ?case by (auto simp: under_refl)
next
  case (3 md5hex path n listable es s)
  show ?case
  proof (cases "\<not> listable \<or> HasPrefix n ''.'' \<or> HasSuffix n ''.app''")
    case True
    with "3.prems"(1) have "Files s' = Files s @ []" by (auto split: if_splits)
    then show ?thesis by (intro exI [of _ "[]"]) simp
  next
    case False
    with "3.prems"(1) have w: "walk_entries md5hex path es s = Some s'" by simp
    from False have c: "\<not> \<not> listable" "\<not> HasPrefix n ''.''" "\<not> HasSuffix n ''.app''" by simp_all
    from "3.prems"(2) have d: "distinct (map entry_name es)"
      and p: "\<forall>e \<in> set es. CHR ''/'' \<notin> set (entry_name e) \<and> plain_names e" by simp_all
    from "3.IH" [OF c w d p] obtain new where new: "Files s' = Files s @ new"
      "distinct (map Path new)"
      "\<forall>f \<in> set new. \<exists>e \<in> set es. under (Join path (entry_name e)) (Path f)"
      by blast
    from new(3) have "\<forall>f \<in> set new. under path (Path f)" by (blast intro: under_Join)
    with new(1,2) show ?thesis by blast
  qed
next
  case (4 md5hex dir s)
  then have "Files s' = Files s @ []" by simp
  then show ?case by (intro exI [of _ "[]"]) simp
next
  case (5 md5hex dir e es s)
  from "5.prems"(1) obtain s1 where s1: "walk md5hex (Join dir (entry_name e)) e s = Some s1"
    and rest: "walk_entries md5hex dir es s1 = Some s'"
    by (auto split: option.splits)
  from "5.prems"(2,3) have e: "plain_names e" "CHR ''/'' \<notin> set (entry_name e)"
    and d: "distinct (map entry_name es)" "entry_name e \<notin> entry_name ` set es"
    and p: "\<forall>e \<in> set es. CHR ''/'' \<notin> set (entry_name e) \<and> plain_names e"
    by simp_all
  from "5.IH"(1) [OF s1 e(1)] obtain new1 where n1: "Files s1 = Files s @ new1"
    "distinct (map Path new1)" "\<forall>f \<in> set new1. under (Join dir (entry_name e)) (Path f)"
    by blast
  from "5.IH"(2) [OF s1 rest d(1) p] obtain new2 where n2: "Files s' = Files s1 @ new2"
    "distinct (map Path new2)"
    "\<forall>f \<in> set new2. \<exists>e \<in> set es. under (Join dir (entry_name e)) (Path f)"
    by blast
  have disj: "Path ` set new1 \<inter> Path ` set new2 = {}"
  proof (rule ccontr)
    assume "Path ` set new1 \<inter> Path ` set new2 \<noteq> {}"
    then obtain f g where f: "f \<in> set new1" and g: "g \<in> set new2" and eq: "Path f = Path g"
      by auto
    from n1(3) f have u1: "under (Join dir (entry_name e)) (Path f)" by blast
    from n2(3) g obtain e' where e': "e' \<in> set es" "under (Join dir (entry_name e')) (Path g)"
      by blast
    from e'(1) p have "CHR ''/'' \<notin> set (entry_name e')" by blast
    with u1 e'(2) eq e(2) have "entry_name e = entry_name e'"
      by (intro under_Join_inj [of dir _ "Path f"]) simp_all
    with e'(1) d(2) show False by auto
  qed
  have "Files s' = Files s @ (new1 @ new2)" by (simp add: n1(1) n2(1))
  moreover have "distinct (map Path (new1 @ new2))"
    using n1(2) n2(2) disj by simp
  moreover have "\<forall>f \<in> set (new1 @ new2). \<exists>e' \<in> set (e # es). under (Join dir (entry_name e')) (Path f)"
    using n1(3) n2(3) by auto
  ultimately show ?case by blast
qed

lemma scan_paths_distinct:
  assumes "ScanDirectory md5hex order dirPath tree = Some s" and "plain_names tree"
  shows "distinct (map Path (Files s))"
proof -
  from assms(1) obtain s0 where w: "walk md5hex dirPath tree NewScanner = Some s0"
    and f: "map clear_flag (Files s) = Files s0"
    by (rule scan_decompose)
  from walk_new_paths(1) [OF w assms(2)] have "distinct (map Path (Files s0))"
    by (auto simp: NewScanner_def)
  moreover have "map Path (Files s0) = map Path (Files s)"
    unfolding f [symmetric] by (simp add: clear_flag_def comp_def)
  ultimately show ?thesis by simp
qed

section \<open>The example scan, evaluated\<close>

lemmas scan_eval = ScanDirectory_def NewScanner_def visit_file_def findDuplicates_def Join_def
  HasPrefix_def HasSuffix_def Ext_def to_lower_char_def determineCategory_def
  image_exts_def document_exts_def video_exts_def music_exts_def application_exts_def
  archive_exts_def diskimage_exts_def Let_def

lemma nonempty_hashes:
  "{Hash g | g. g \<in> set fs \<and> Hash g \<noteq> []} = set (filter (\<lambda>h. h \<noteq> []) (map Hash fs))"
  by auto

lemma example_scan:
  "\<exists>s. ScanDirectory example_md5 [''hX'', ''hY''] ''/dl'' example_tree = Some s \<and>
     Files s =
       [\<lparr>Path = ''/dl/a.jpg'', Name = ''a.jpg'', Size = 1, Extension = ''.jpg'',
          Category = ''Images'', Hash = ''hX'', LastModified = 5, IsDuplicate = True,
          IsZip = False\<rparr>,
        \<lparr>Path = ''/dl/b.JPG'', Name = ''b.JPG'', Size = 1, Extension = ''.jpg'',
          Category = ''Images'', Hash = ''hX'', LastModified = 7, IsDuplicate = True,
          IsZip = False\<rparr>,
        \<lparr>Path = ''/dl/c.rar'', Name = ''c.rar'', Size = 1, Extension = ''.rar'',
          Category = ''Archives'', Hash = ''hY'', LastModified = 7, IsDuplicate = False,
          IsZip = False\<rparr>,
        \<lparr>Path = ''/dl/d.zip'', Name = ''d.zip'', Size = 1, Extension = ''.zip'',
          Category = ''Archives'', Hash = [], LastModified = 7, IsDuplicate = False,
          IsZip = True\<rparr>,
        \<lparr>Path = ''/dl/e.txt'', Name = ''e.txt'', Size = 1, Extension = ''.txt'',
          Category = ''Documents'', Hash = [], LastModified = 9, IsDuplicate = False,
          IsZip = False\<rparr>] \<and>
     map_option length (Categories s ''Images'') = Some 2 \<and>
     map_option length (Duplicates s ''hX'') = Some 2"
  by (simp add: example_tree_def example_md5_def scan_eval)

text \<open>Claim C5 (amended) at the example scan.\<close>

theorem scanned_IsZip_only_zip_witness:
  "map_option zip_flags (ScanDirectory example_md5 [''hX'', ''hY''] ''/dl'' example_tree) =
     Some [(''.jpg'', False), (''.jpg'', False), (''.rar'', False), (''.zip'', True),
           (''.txt'', False)]"
proof -
  from example_scan obtain s
    where s: "ScanDirectory example_md5 [''hX'', ''hY''] ''/dl'' example_tree = Some s"
      and e: "map Extension (Files s) = [''.jpg'', ''.jpg'', ''.rar'', ''.zip'', ''.txt'']"
    by auto
  have "zip_flags s = map (\<lambda>f. (Extension f, Extension f = ''.zip'')) (Files s)"
    unfolding zip_flags_def using scanned_IsZip_only_zip [OF s] by (intro map_cong) auto
  also have "\<dots> = map (\<lambda>e. (e, e = ''.zip'')) (map Extension (Files s))"
    by (simp add: comp_def)
  also have "\<dots> = [(''.jpg'', False), (''.jpg'', False), (''.rar'', False), (''.zip'', True),
           (''.txt'', False)]"
    by (simp add: e)
  finally show ?thesis by (simp add: s)
qed

text \<open>
  Claim C5 as stated fails: a scanned \<open>c.rar\<close> has one of the six archive extensions,
  is categorised as \<open>Archives\<close>, and its \<open>IsZip\<close> flag is false.
\<close>

theorem scanned_rar_not_IsZip:
  "map_option Files (ScanDirectory example_md5 [] ''/dl''
      (Directory ''dl'' True [RegFile ''c.rar'' ''Y'' 7 True True])) =
   Some [\<lparr>Path = ''/dl/c.rar'', Name = ''c.rar'', Size = 1, Extension = ''.rar'',
           Category = ''Archives'', Hash = ''hY'', LastModified = 7, IsDuplicate = False,
           IsZip = False\<rparr>]"
  by (simp add: example_md5_def scan_eval)

text \<open>
  Claim C10 at the example scan: both \<open>.jpg\<close> files are flagged in \<open>Files\<close>, and
  their copies in \<open>Categories\<close> and in \<open>Duplicates\<close> are not.
\<close>

theorem scan_copies_never_flagged_witness:
  "map_option (flag_view ''Images'' ''hX'')
     (ScanDirectory example_md5 [''hX'', ''hY''] ''/dl'' example_tree) =
   Some ([True, True, False, False, False], Some [False, False], Some [False, False])"
proof -
  from example_scan obtain s
    where s: "ScanDirectory example_md5 [''hX'', ''hY''] ''/dl'' example_tree = Some s"
      and f: "map IsDuplicate (Files s) = [True, True, False, False, False]"
      and c: "map_option length (Categories s ''Images'') = Some 2"
      and d: "map_option length (Duplicates s ''hX'') = Some 2"
    by auto
  from c obtain cs where cs: "Categories s ''Images'' = Some cs" "length cs = 2" by auto
  from d obtain ds where ds: "Duplicates s ''hX'' = Some ds" "length ds = 2" by auto
  from scan_copies_never_flagged [OF s] cs(1) ds(1)
  have "\<forall>f \<in> set cs. \<not> IsDuplicate f" "\<forall>f \<in> set ds. \<not> IsDuplicate f" by blast+
  then have "map IsDuplicate cs = replicate (length cs) False"
    "map IsDuplicate ds = replicate (length ds) False"
    by (simp_all add: map_replicate_const [symmetric] cong: map_cong)
  then show ?thesis using s f cs ds by (simp add: flag_view_def numeral_2_eq_2)
qed

text \<open>
  Claim C8 at the example scan: one group, of the two hashed files with content \<open>X\<close>;
  \<open>e.txt\<close> has the same bytes but its hashing failed, and it is neither grouped nor
  flagged.
\<close>

theorem scan_one_group_of_identical_files_witness:
  "map_option (group_view ''hX'')
     (ScanDirectory example_md5 [''hX'', ''hY''] ''/dl'' example_tree) =
   Some (Some [''/dl/a.jpg'', ''/dl/b.JPG''],
         [(''/dl/a.jpg'', True), (''/dl/b.JPG'', True), (''/dl/c.rar'', False),
          (''/dl/d.zip'', False), (''/dl/e.txt'', False)])"
proof -
  from example_scan obtain s
    where s: "ScanDirectory example_md5 [''hX'', ''hY''] ''/dl'' example_tree = Some s"
      and f: "Files s =
       [\<lparr>Path = ''/dl/a.jpg'', Name = ''a.jpg'', Size = 1, Extension = ''.jpg'',
          Category = ''Images'', Hash = ''hX'', LastModified = 5, IsDuplicate = True,
          IsZip = False\<rparr>,
        \<lparr>Path = ''/dl/b.JPG'', Name = ''b.JPG'', Size = 1, Extension = ''.jpg'',
          Category = ''Images'', Hash = ''hX'', LastModified = 7, IsDuplicate = True,
          IsZip = False\<rparr>,
        \<lparr>Path = ''/dl/c.rar'', Name = ''c.rar'', Size = 1, Extension = ''.rar'',
          Category = ''Archives'', Hash = ''hY'', LastModified = 7, IsDuplicate = False,
          IsZip = False\<rparr>,
        \<lparr>Path = ''/dl/d.zip'', Name = ''d.zip'', Size = 1, Extension = ''.zip'',
          Category = ''Archives'', Hash = [], LastModified = 7, IsDuplicate = False,
          IsZip = True\<rparr>,
        \<lparr>Path = ''/dl/e.txt'', Name = ''e.txt'', Size = 1, Extension = ''.txt'',
          Category = ''Documents'', Hash = [], LastModified = 9, IsDuplicate = False,
          IsZip = False\<rparr>]"
    by auto
  have paths: "distinct (map Path (Files s))" by (simp add: f)
  have keys: "set [''hX'', ''hY''] = {Hash g | g. g \<in> set (Files s) \<and> Hash g \<noteq> []}"
    unfolding nonempty_hashes by (simp add: f)
  have h: "''hX'' \<noteq> []" by simp
  have N: "2 \<le> length (filter (\<lambda>g. Hash g = ''hX'') (Files s))" by (simp add: f)
  have M: "\<forall>f \<in> set (Files s). \<forall>g \<in> set (Files s).
              Hash f = Hash g \<and> Hash f \<noteq> ''hX'' \<and> Hash f \<noteq> [] \<longrightarrow> Path f = Path g"
    by (simp add: f)
  from scan_one_group_of_identical_files [OF s paths keys h N M]
  have "Duplicates s ''hX'' = Some (map clear_flag (filter (\<lambda>f. Hash f = ''hX'') (Files s)))"
    by blast
  then show ?thesis using s by (simp add: group_view_def f clear_flag_def)
qed

section \<open>Properties of archive classification\<close>

lemmas ext_lists = image_exts_def document_exts_def video_exts_def music_exts_def
  zip_application_exts_def font_exts_def code_exts_def

lemma count_ext_imageCount:
  "imageCount (count_ext e t) = imageCount t + (if e \<in> set image_exts then 1 else 0)"
  by (simp add: count_ext_def)

lemma count_ext_documentCount:
  "documentCount (count_ext e t) = documentCount t + (if e \<in> set document_exts then 1 else 0)"
proof -
  have "set image_exts \<inter> set document_exts = {}" by (simp add: ext_lists)
  then show ?thesis by (auto simp: count_ext_def)
qed

lemma count_ext_videoCount:
  "videoCount (count_ext e t) = videoCount t + (if e \<in> set video_exts then 1 else 0)"
proof -
  have "(set image_exts \<union> set document_exts) \<inter> set video_exts = {}" by (simp add: ext_lists)
  then show ?thesis by (auto simp: count_ext_def)
qed

lemma count_ext_audioCount:
  "audioCount (count_ext e t) = audioCount t + (if e \<in> set music_exts then 1 else 0)"
proof -
  have "(set image_exts \<union> set document_exts \<union> set video_exts) \<inter> set music_exts = {}"
    by (simp add: ext_lists)
  then show ?thesis by (auto simp: count_ext_def)
qed

lemma count_ext_applicationCount:
  "applicationCount (count_ext e t) =
     applicationCount t + (if e \<in> set zip_application_exts then 1 else 0)"
proof -
  have "(set image_exts \<union> set document_exts \<union> set video_exts \<union> set music_exts)
          \<inter> set zip_application_exts = {}"
    by (simp add: ext_lists)
  then show ?thesis by (auto simp: count_ext_def)
qed

lemma count_ext_fontCount:
  "fontCount (count_ext e t) = fontCount t + (if e \<in> set font_exts then 1 else 0)"
proof -
  have "(set image_exts \<union> set document_exts \<union> set video_exts \<union> set music_exts
          \<union> set zip_application_exts) \<inter> set font_exts = {}"
    by (simp add: ext_lists)
  then show ?thesis by (auto simp: count_ext_def)
qed

lemma count_ext_codeCount:
  "codeCount (count_ext e t) = codeCount t + (if e \<in> set code_exts then 1 else 0)"
proof -
  have "(set image_exts \<union> set document_exts \<union> set video_exts \<union> set music_exts
          \<union> set zip_application_exts \<union> set font_exts) \<inter> set code_exts = {}"
    by (simp add: ext_lists)
  then show ?thesis by (auto simp: count_ext_def)
qed

lemmas count_ext_fields = count_ext_imageCount count_ext_documentCount count_ext_videoCount
  count_ext_audioCount count_ext_applicationCount count_ext_fontCount count_ext_codeCount

lemma count_entries_fields:
  "imageCount (count_entries es t) = imageCount t + bucket_count image_exts es"
  "documentCount (count_entries es t) = documentCount t + bucket_count document_exts es"
  "videoCount (count_entries es t) = videoCount t + bucket_count video_exts es"
  "audioCount (count_entries es t) = audioCount t + bucket_count music_exts es"
  "applicationCount (count_entries es t) = applicationCount t + bucket_count zip_application_exts es"
  "fontCount (count_entries es t) = fontCount t + bucket_count font_exts es"
  "codeCount (count_entries es t) = codeCount t + bucket_count code_exts es"
  by (induction es arbitrary: t; simp add: bucket_count_def count_ext_fields)+

lemma fold_max_ge: "a \<le> fold max xs (a::nat)"
proof (induction xs arbitrary: a)
  case Nil
  then show ?case by simp
next
  case (Cons x xs)
  have "a \<le> max x a" by simp
  also have "\<dots> \<le> fold max xs (max x a)" by (rule Cons.IH)
  finally show ?case by simp
qed

lemma chain_first_highest:
  "snd (fold chain_step bs (m, c)) =
     (case filter (\<lambda>b. snd b = fold max (map snd bs) m \<and> fold max (map snd bs) m > m) bs of
        [] \<Rightarrow> c | b # rest \<Rightarrow> fst b)"
proof (induction bs arbitrary: m c)
  case Nil
  then show ?case by simp
next
  case (Cons b bs)
  let ?n = "snd b"
  show ?case
  proof (cases "?n > m")
    case True
    let ?M = "fold max (map snd bs) ?n"
    have M: "fold max (map snd (b # bs)) m = ?M" using True by (simp add: max_def)
    have ge: "?n \<le> ?M" by (rule fold_max_ge)
    have step: "fold chain_step (b # bs) (m, c) = fold chain_step bs (?n, fst b)"
      using True by (simp add: chain_step_def take_if_greater_def)
    show ?thesis
    proof (cases "?n = ?M")
      case eq: True
      then have "filter (\<lambda>x. snd x = ?M \<and> ?M > ?n) bs = []" by simp
      then have "snd (fold chain_step bs (?n, fst b)) = fst b"
        by (simp add: Cons.IH)
      moreover have "filter (\<lambda>x. snd x = ?M \<and> ?M > m) (b # bs)
          = b # filter (\<lambda>x. snd x = ?M \<and> ?M > m) bs"
        using eq True by simp
      ultimately show ?thesis by (simp only: step M list.case)
    next
      case neq: False
      with ge have gt: "?M > ?n" by simp
      with True have gtm: "?M > m" by simp
      have "filter (\<lambda>x. snd x = ?M \<and> ?M > m) (b # bs) = filter (\<lambda>x. snd x = ?M \<and> ?M > ?n) bs"
        using neq gt gtm by simp
      moreover have "filter (\<lambda>x. snd x = ?M \<and> ?M > ?n) bs \<noteq> [] "
      proof -
        have "\<And>a. fold max (map snd bs) a > a \<Longrightarrow> \<exists>x \<in> set bs. snd x = fold max (map snd bs) a"
        proof (induction bs)
          case Nil
          then show ?case by simp
        next
          case (Cons y ys)
          show ?case
          proof (cases "fold max (map snd ys) (max (snd y) a) > max (snd y) a")
            case True
            from Cons.IH [OF True] show ?thesis by auto
          next
            case False
            then have "fold max (map snd ys) (max (snd y) a) \<le> max (snd y) a"
              by (simp only: not_less)
            then have e: "fold max (map snd ys) (max (snd y) a) = max (snd y) a"
              using fold_max_ge [of "max (snd y) a" "map snd ys"] by (rule order.antisym)
            with Cons.prems have "max (snd y) a > a" by simp
            then have "max (snd y) a = snd y" by (simp add: max_def split: if_splits)
            with e show ?thesis by simp
          qed
        qed
        from this [OF gt] show ?thesis by (auto simp: filter_empty_conv gt)
      qed
      ultimately show ?thesis
        by (simp only: step M Cons.IH) (simp split: list.splits)
    qed
  next
    case False
    have M: "fold max (map snd (b # bs)) m = fold max (map snd bs) m"
      using False by (simp add: max_def)
    have step: "fold chain_step (b # bs) (m, c) = fold chain_step bs (m, c)"
      using False by (simp add: chain_step_def take_if_greater_def)
    have "\<not> (?n = fold max (map snd bs) m \<and> fold max (map snd bs) m > m)"
      using False by auto
    then have "filter (\<lambda>x. snd x = fold max (map snd bs) m \<and> fold max (map snd bs) m > m) (b # bs)
        = filter (\<lambda>x. snd x = fold max (map snd bs) m \<and> fold max (map snd bs) m > m) bs"
      by simp
    then show ?thesis by (simp only: step M Cons.IH)
  qed
qed

lemma dominant_chain:
  "dominant t = snd (fold chain_step
     [(''Images'', imageCount t), (''Documents'', documentCount t), (''Videos'', videoCount t),
      (''Music'', audioCount t), (''Applications'', applicationCount t),
      (''Other'', fontCount t), (''Other'', codeCount t)] (0, ''Other''))"
  by (simp add: dominant_def chain_step_def Let_def)

lemma first_highest_chain: "first_highest bs = snd (fold chain_step bs (0, ''Other''))"
proof (cases "fold max (map snd bs) 0 = 0")
  case True
  then show ?thesis by (simp add: first_highest_def chain_first_highest)
next
  case False
  then show ?thesis by (simp add: first_highest_def chain_first_highest Let_def)
qed

text \<open>
  Claim C4, as amended. \<open>analyzeZipContents\<close> counts the entries that are not
  directories in seven buckets and returns the folder of the first bucket, in the order
  images, documents, videos, audio, applications, fonts, code, whose count is the highest
  one; fonts and code stand for the folder \<open>Other\<close>; the result is \<open>Other\<close> when
  all seven counts are zero. A bucket with the strictly highest count therefore wins, and
  a tie goes to the earliest of the tied buckets.
\<close>

theorem analyzeZipContents_first_highest:
  "analyzeZipContents entries = first_highest (bucket_counts entries)"
  by (simp add: analyzeZipContents_def dominant_chain first_highest_chain bucket_counts_def
        count_entries_fields)

text \<open>
  Claim C4 as stated fails on a tie: one image entry and one document entry give
  \<open>Images\<close>, not \<open>Other\<close> (the repository's own test expects \<open>Images\<close> for two
  images and two documents).
\<close>

theorem analyzeZipContents_tie_is_not_Other:
  "bucket_counts [jpg_entry, pdf_entry] =
     [(''Images'', 1), (''Documents'', 1), (''Videos'', 0), (''Music'', 0),
      (''Applications'', 0), (''Other'', 0), (''Other'', 0)] \<and>
   analyzeZipContents [jpg_entry, pdf_entry] = ''Images''"
  by code_simp

text \<open>
  What the amended reading gives for the cases the claim names: all counts zero give
  \<open>Other\<close>, and a bucket whose positive count is strictly above every other count wins.
\<close>

lemma fold_max_Max: "fold max xs (a::nat) = Max (set (a # xs))"
  by (simp only: Max.set_eq_fold)

lemma first_highest_all_zero:
  assumes "\<forall>b \<in> set buckets. snd b = 0"
  shows "first_highest buckets = ''Other''"
proof -
  have "Max (set (0 # map snd buckets)) = 0"
    using assms by (intro Max_eqI) auto
  then show ?thesis by (simp add: first_highest_def fold_max_Max)
qed

lemma first_highest_strictly_highest:
  assumes "i < length buckets" and "0 < snd (buckets ! i)"
    and "\<forall>j < length buckets. j \<noteq> i \<longrightarrow> snd (buckets ! j) < snd (buckets ! i)"
  shows "first_highest buckets = fst (buckets ! i)"
proof -
  let ?m = "snd (buckets ! i)"
  have m: "fold max (map snd buckets) 0 = ?m"
    unfolding fold_max_Max
  proof (rule Max_eqI)
    show "finite (set (0 # map snd buckets))" by simp
    show "?m \<in> set (0 # map snd buckets)" using assms(1) by auto
    fix y assume "y \<in> set (0 # map snd buckets)"
    then consider "y = 0" | j where "j < length buckets" "y = snd (buckets ! j)"
      by (auto simp: in_set_conv_nth)
    then show "y \<le> ?m"
    proof cases
      case 1
      then show ?thesis by simp
    next
      case 2
      with assms(3) show ?thesis by (cases "j = i") (auto simp: less_imp_le)
    qed
  qed
  have all: "b = buckets ! i" if "b \<in> set (filter (\<lambda>b. snd b = ?m) buckets)" for b
  proof -
    from that obtain j where j: "j < length buckets" "b = buckets ! j" "snd b = ?m"
      by (auto simp: in_set_conv_nth)
    with assms(3) have "j = i" by (cases "j = i") auto
    with j show ?thesis by simp
  qed
  have "buckets ! i \<in> set (filter (\<lambda>b. snd b = ?m) buckets)"
    using assms(1) by simp
  then obtain b rest where f: "filter (\<lambda>b. snd b = ?m) buckets = b # rest"
    by (cases "filter (\<lambda>b. snd b = ?m) buckets") auto
  then have "b \<in> set (filter (\<lambda>b. snd b = ?m) buckets)" by simp
  then have "b = buckets ! i" by (rule all)
  with f m assms(2) show ?thesis by (simp add: first_highest_def)
qed

section \<open>Properties of pattern-aware duplicate resolution\<close>

lemma split_by_pattern_filter:
  "split_by_pattern fs orig copies =
     (case filter (\<lambda>f. isOriginalFile (Name f)) fs of [] \<Rightarrow> orig | x # xs \<Rightarrow> Some (last (x # xs)),
      copies @ filter (\<lambda>f. \<not> isOriginalFile (Name f)) fs)"
proof (induction fs arbitrary: orig copies)
  case Nil
  then show ?case by simp
next
  case (Cons f fs)
  show ?case
  proof (cases "isOriginalFile (Name f)")
    case True
    then show ?thesis by (simp add: Cons.IH split: list.splits)
  next
    case False
    then show ?thesis by (simp add: Cons.IH)
  qed
qed

text \<open>
  Claim C2, as amended. In a duplicate group with at least one member whose name looks
  original, \<open>RemoveDuplicatesByPattern\<close> announces the last such member as kept and
  goes through exactly the members whose names look like copies, in group order: no
  member whose name looks original is removed. In particular, when exactly one member
  looks original, it is kept and every other member is on the removal list.
\<close>

theorem pattern_group_keeps_originals:
  assumes "2 \<le> length files" and "\<exists>f \<in> set files. isOriginalFile (Name f)"
  shows "pattern_group go122 files =
           Some (last (filter (\<lambda>f. isOriginalFile (Name f)) files),
                 filter (\<lambda>f. \<not> isOriginalFile (Name f)) files) \<and>
         (\<forall>original. filter (\<lambda>f. isOriginalFile (Name f)) files = [original] \<longrightarrow>
            pattern_group go122 files = Some (original, filter (\<lambda>f. f \<noteq> original) files))"
proof -
  let ?os = "filter (\<lambda>f. isOriginalFile (Name f)) files"
  let ?cs = "filter (\<lambda>f. \<not> isOriginalFile (Name f)) files"
  from assms(2) have "?os \<noteq> []" by (simp add: filter_empty_conv)
  then obtain x xs where os: "?os = x # xs" by (cases ?os) auto
  then have "split_by_pattern files None [] = (Some (last ?os), ?cs)"
    by (simp add: split_by_pattern_filter)
  with assms(1) have main: "pattern_group go122 files = Some (last ?os, ?cs)"
    by (simp add: pattern_group_def)
  have one: "pattern_group go122 files = Some (original, filter (\<lambda>f. f \<noteq> original) files)"
    if single: "?os = [original]" for original
  proof -
    have "original \<in> set ?os" by (simp add: single)
    then have o: "isOriginalFile (Name original)" by simp
    have "?cs = filter (\<lambda>f. f \<noteq> original) files"
    proof (rule filter_cong [OF refl])
      fix f assume f: "f \<in> set files"
      show "(\<not> isOriginalFile (Name f)) = (f \<noteq> original)"
      proof
        assume "\<not> isOriginalFile (Name f)"
        with o show "f \<noteq> original" by auto
      next
        assume ne: "f \<noteq> original"
        show "\<not> isOriginalFile (Name f)"
        proof
          assume "isOriginalFile (Name f)"
          with f have "f \<in> set ?os" by simp
          with single ne show False by simp
        qed
      qed
    qed
    with main single show ?thesis by simp
  qed
  from main one show ?thesis by blast
qed

text \<open>
  When no member looks original, the first loop has already put every member on
  \<open>copyFiles\<close>; the fallback then appends the members other than its newest-wins keeper
  once more. The keeper itself is therefore on the removal list.
\<close>

lemma pattern_group_no_original:
  assumes "2 \<le> length files" and "\<forall>f \<in> set files. \<not> isOriginalFile (Name f)"
  shows "pattern_group go122 files =
     Some (fallback_keeper go122 files,
           files @ filter (\<lambda>f. Path f \<noteq> Path (fallback_keeper go122 files)) files)"
proof -
  from assms(2) have "filter (\<lambda>f. isOriginalFile (Name f)) files = []"
    "filter (\<lambda>f. \<not> isOriginalFile (Name f)) files = files"
    by (simp_all add: filter_empty_conv filter_id_conv)
  then have "split_by_pattern files None [] = (None, files)"
    by (simp add: split_by_pattern_filter)
  with assms(1) show ?thesis by (simp add: pattern_group_def Let_def)
qed

text \<open>
  On a disk, for a group of two copies of which none looks original: both files are
  removed, the announced keeper \<open>a (2).txt\<close> included, and the second attempt to remove
  \<open>a (1).txt\<close> fails with a warning. Plain newest-wins removal keeps \<open>a (2).txt\<close>.
\<close>

lemma RemoveDuplicatesByPattern_removes_every_copy:
  "dup_view [''/dl/a (1).txt'', ''/dl/a (2).txt'']
     (RemoveDuplicatesByPattern ok_env False True copies_scanner [''hX''] copies_disk) =
     ([None, None], 2, [RemoveFailed ''a (1).txt''])"
  "dup_view [''/dl/a (1).txt'', ''/dl/a (2).txt'']
     (RemoveDuplicatesByPattern ok_env False False copies_scanner [''hX''] copies_disk) =
     ([None, None], 2, [RemoveFailed ''a (1).txt''])"
  "dup_view [''/dl/a (1).txt'', ''/dl/a (2).txt'']
     (RemoveDuplicates ok_env False copies_scanner [''hX''] copies_disk) =
     ([None, Some ''X''], 1, [])"
  by code_simp+

text \<open>Claim C2 (amended) on a group of one original and two copies.\<close>

theorem pattern_group_keeps_originals_witness:
  "pattern_group True [example_file ''a.txt'' 2, example_file ''a (1).txt'' 1,
                       example_file ''a copy.txt'' 3] =
     Some (example_file ''a.txt'' 2, [example_file ''a (1).txt'' 1, example_file ''a copy.txt'' 3])"
proof -
  let ?files = "[example_file ''a.txt'' 2, example_file ''a (1).txt'' 1, example_file ''a copy.txt'' 3]"
  have names: "isOriginalFile ''a.txt''" "\<not> isOriginalFile ''a (1).txt''"
    "\<not> isOriginalFile ''a copy.txt''"
    by code_simp+
  have len: "2 \<le> length ?files" by simp
  have ex: "\<exists>f \<in> set ?files. isOriginalFile (Name f)"
    using names by (simp add: example_file_def)
  have single: "filter (\<lambda>f. isOriginalFile (Name f)) ?files = [example_file ''a.txt'' 2]"
    using names by (simp add: example_file_def)
  from pattern_group_keeps_originals [OF len ex, of True] single
  have "pattern_group True ?files =
      Some (example_file ''a.txt'' 2, filter (\<lambda>f. f \<noteq> example_file ''a.txt'' 2) ?files)"
    by blast
  then show ?thesis by (simp add: example_file_def)
qed

text \<open>
  Claim C2 as stated fails when two members look original: the claim asks for the newer
  \<open>a.txt\<close> as keeper and for \<open>b.txt\<close> to be disposed; the code announces \<open>b.txt\<close>
  and removes nothing, under either loop-variable semantics.
\<close>

theorem pattern_group_two_originals:
  "isOriginalFile ''a.txt'' \<and> isOriginalFile ''b.txt'' \<and>
   pattern_group True [example_file ''a.txt'' 2, example_file ''b.txt'' 1] =
     Some (example_file ''b.txt'' 1, []) \<and>
   pattern_group False [example_file ''a.txt'' 2, example_file ''b.txt'' 1] =
     Some (example_file ''b.txt'' 1, [])"
  by code_simp

lemma pattern_group_no_original_example:
  "pattern_group True [example_file ''a (1).txt'' 1, example_file ''a (2).txt'' 2] =
     Some (example_file ''a (2).txt'' 2,
           [example_file ''a (1).txt'' 1, example_file ''a (2).txt'' 2,
            example_file ''a (1).txt'' 1])"
  by code_simp

section \<open>Properties of hostile-archive screening\<close>

text \<open>The constant \<open>0.01\<close> and two conversions, as the model computes them.\<close>

lemma f64_examples:
  "f64_nearest 1 100 = (5764607523034235, - 59)"
  "f64_of_uint64 (2 ^ 53 + 1) = (4503599627370496, 1)"
  "f64_of_uint64 (2 ^ 53 + 3) = (4503599627370498, 1)"
  by code_simp+

text \<open>
  Claim C7 fails on the code. The archive file has 1000 bytes and lists one entry whose
  header declares \<open>2^63\<close> bytes, compressed and uncompressed. The running total of the
  uncompressed sizes exceeds ten times the 100 MiB ceiling, so the claim asks for an
  error; \<open>int64(f.UncompressedSize64)\<close> is \<open>-2^63\<close>, the total is negative, the ratio is
  1, and \<open>checkZipBomb\<close> returns \<open>nil\<close>.
\<close>

theorem checkZipBomb_accepts_wrapped_total:
  "uint (UncompressedSize64 huge_entry) > 10 * maxZipSize \<and>
   \<not> suspicious_ratio huge_entry \<and>
   sint (0 + UncompressedSize64 huge_entry) = - (2 ^ 63) \<and>
   checkZipBomb (Some 1000) (Some [huge_entry]) = None"
  by code_simp

text \<open>
  When the declared sizes are small enough for the \<open>int64\<close> total not to wrap before
  the cap applies, \<open>checkZipBomb\<close> fails exactly under the four conditions of the
  specification.
\<close>

lemma sint_plus_uint_no_wrap:
  fixes t u :: "64 word"
  assumes "0 \<le> sint t" and "sint t + uint u < 2 ^ 63"
  shows "sint (t + u) = sint t + uint u"
proof -
  have "sint t < 2 ^ 64" using sint_lt [of t] by simp
  with assms(1) have "take_bit 64 (sint t) = sint t"
    by (intro take_bit_int_eq_self) simp_all
  then have t: "uint t = sint t" using uint_sint [of t] by simp
  have "uint (t + u) = (uint t + uint u) mod 2 ^ 64"
    by (simp add: uint_word_ariths)
  also have "\<dots> = uint t + uint u"
    using assms t by (intro mod_pos_pos_trivial) simp_all
  finally have s: "uint (t + u) = sint t + uint u" using t by simp
  have "sint (t + u) = signed_take_bit 63 (uint (t + u))"
    using sint_uint [of "t + u"] by simp
  also have "\<dots> = sint t + uint u"
  proof -
    have "0 \<le> uint u" by simp
    with assms have "- (2 ^ 63) \<le> sint t + uint u" "sint t + uint u < 2 ^ 63" by linarith+
    then show ?thesis unfolding s by (rule signed_take_bit_int_eq_self)
  qed
  finally show ?thesis .
qed

lemma sum_sizes_nonneg: "0 \<le> (\<Sum>f \<leftarrow> es. uint (UncompressedSize64 f))"
  by (induction es) simp_all

lemma check_entries_without_wraparound:
  assumes "0 \<le> sint t" and "sint t \<le> maxZipSize * 10"
    and "\<forall>f \<in> set es. uint (UncompressedSize64 f) < 2 ^ 63 - maxZipSize * 10"
    and "n \<le> maxZipEntries"
  shows "check_entries es n t \<noteq> None \<longleftrightarrow>
           n + length es > maxZipEntries \<or> (\<exists>f \<in> set es. suspicious_ratio f) \<or>
           sint t + (\<Sum>f \<leftarrow> es. uint (UncompressedSize64 f)) > maxZipSize * 10"
  using assms
proof (induction es arbitrary: n t)
  case Nil
  then show ?case by simp
next
  case (Cons f rest)
  let ?u = "uint (UncompressedSize64 f)"
  let ?sum = "\<Sum>f \<leftarrow> rest. uint (UncompressedSize64 f)"
  have sum0: "0 \<le> ?sum" by (rule sum_sizes_nonneg)
  have u0: "0 \<le> ?u" by simp
  from Cons.prems have "?u < 2 ^ 63 - maxZipSize * 10" by simp
  with Cons.prems(2) have "sint t + ?u < 2 ^ 63" by linarith
  with Cons.prems(1) have add: "sint (t + UncompressedSize64 f) = sint t + ?u"
    by (rule sint_plus_uint_no_wrap)
  show ?case
  proof (cases "n + 1 > maxZipEntries")
    case True
    then show ?thesis by simp
  next
    case count: False
    show ?thesis
    proof (cases "suspicious_ratio f")
      case True
      with count show ?thesis by simp
    next
      case ratio: False
      show ?thesis
      proof (cases "sint t + ?u > maxZipSize * 10")
        case True
        with sum0 have "sint t + (?u + ?sum) > maxZipSize * 10" by linarith
        with count ratio True add show ?thesis by simp
      next
        case total: False
        have "check_entries rest (n + 1) (t + UncompressedSize64 f) \<noteq> None \<longleftrightarrow>
            (n + 1) + length rest > maxZipEntries \<or> (\<exists>f \<in> set rest. suspicious_ratio f) \<or>
            sint (t + UncompressedSize64 f) + ?sum > maxZipSize * 10"
          using Cons.prems total u0 count by (intro Cons.IH) (simp_all add: add)
        with count ratio total add show ?thesis by (simp add: add.assoc)
      qed
    qed
  qed
qed

lemma checkZipBomb_without_wraparound:
  assumes "\<forall>f \<in> set entries. uint (UncompressedSize64 f) < 2 ^ 63 - maxZipSize * 10"
  shows "checkZipBomb (Some fileSize) (Some entries) \<noteq> None \<longleftrightarrow>
           screening_rejects fileSize entries"
proof (cases "fileSize > maxZipSize")
  case True
  then show ?thesis by (simp add: checkZipBomb_def screening_rejects_def)
next
  case False
  have "0 \<le> sint (0 :: 64 word)" "sint (0 :: 64 word) \<le> maxZipSize * 10"
    by (simp_all add: maxZipSize_def)
  moreover have "0 \<le> maxZipEntries" by simp
  ultimately have "check_entries entries 0 0 \<noteq> None \<longleftrightarrow>
      0 + length entries > maxZipEntries \<or> (\<exists>f \<in> set entries. suspicious_ratio f) \<or>
      sint (0 :: 64 word) + (\<Sum>f \<leftarrow> entries. uint (UncompressedSize64 f)) > maxZipSize * 10"
    using assms by (intro check_entries_without_wraparound)
  with False
  show ?thesis by (simp add: checkZipBomb_def screening_rejects_def)
qed

section \<open>Properties of the move primitive\<close>

text \<open>
  Following links: a path that is no symbolic link is where it leads; the walk depends on
  the symbolic links only, and ends at an entry that is none.
\<close>

lemma follow_no_symlink:
  assumes "\<And>t. l p \<noteq> Some (SymLink t)"
  shows "follow (Suc n) l p = Some p"
  using assms by (auto split: option.splits dirent.splits)

lemma follow_same_symlinks:
  assumes "\<And>x t. (l' x = Some (SymLink t)) = (l x = Some (SymLink t))"
  shows "follow n l' p = follow n l p"
proof (induction n arbitrary: p)
  case 0
  show ?case by simp
next
  case (Suc n)
  show ?case
  proof (cases "\<exists>t. l p = Some (SymLink t)")
    case True
    then obtain t where t: "l p = Some (SymLink t)" by blast
    with assms have "l' p = Some (SymLink t)" by simp
    with t Suc show ?thesis by simp
  next
    case False
    with assms have "\<And>t. l' p \<noteq> Some (SymLink t)" by simp
    from follow_no_symlink [of l' p n, OF this] follow_no_symlink [of l p n] False
    show ?thesis by simp
  qed
qed

lemma follow_ends: "follow n l p = Some q \<Longrightarrow> l q \<noteq> Some (SymLink t)"
proof (induction n arbitrary: p)
  case 0
  then show ?case by simp
next
  case (Suc n)
  then show ?case by (auto split: option.splits dirent.splits)
qed

lemma final_path_no_symlink:
  "(\<And>t. links fs p \<noteq> Some (SymLink t)) \<Longrightarrow> final_path fs p = Some p"
  unfolding final_path_def by (rule follow_no_symlink)

lemma final_path_same_symlinks:
  assumes "\<And>x t. (links fs' x = Some (SymLink t)) = (links fs x = Some (SymLink t))"
  shows "final_path fs' p = final_path fs p"
  unfolding final_path_def using assms by (rule follow_same_symlinks)

lemma final_path_ends: "final_path fs p = Some q \<Longrightarrow> links fs q \<noteq> Some (SymLink t)"
  unfolding final_path_def by (rule follow_ends)

lemma contents_file: "links fs p = Some (FileLink i) \<Longrightarrow> contents fs p = bytes_of fs i"
  using final_path_no_symlink [of fs p] by (simp add: contents_def)

lemma contents_no_entry: "links fs p = None \<Longrightarrow> contents fs p = None"
  using final_path_no_symlink [of fs p] by (simp add: contents_def)

lemma stat_ok_file: "links fs p = Some (FileLink i) \<Longrightarrow> stat_ok fs p"
  using final_path_no_symlink [of fs p] by (simp add: stat_ok_def)

lemma stat_ok_no_entry: "links fs p = None \<Longrightarrow> stat_ok fs p = (p \<in> folders fs)"
  using final_path_no_symlink [of fs p] by (simp add: stat_ok_def)

lemma well_formed_file:
  assumes "well_formed fs" and "links fs p = Some (FileLink i)"
  shows "i < next_inode fs" and "\<exists>bytes. bytes_of fs i = Some bytes" and "p \<notin> folders fs"
proof -
  from assms have "i < next_inode fs \<and> bytes_of fs i \<noteq> None"
    unfolding well_formed_def by blast
  then show "i < next_inode fs" and "\<exists>bytes. bytes_of fs i = Some bytes" by auto
  from assms have "links fs p \<noteq> None \<longrightarrow> p \<notin> folders fs"
    unfolding well_formed_def by blast
  with assms(2) show "p \<notin> folders fs" by simp
qed

lemma Rename_success:
  assumes "Rename env fs src dst = (False, fs')"
  shows "\<exists>e. links fs src = Some e \<and>
           (if same_file fs src dst then fs' = fs
            else fs' = fs\<lparr>links := ((links fs)(src := None))(dst \<mapsto> e)\<rparr>)"
  using assms by (auto simp: Rename_def split: option.splits if_splits)

lemma Rename_failure: "Rename env fs src dst = (True, fs') \<Longrightarrow> fs' = fs"
  by (auto simp: Rename_def split: option.splits if_splits)

lemma Remove_success:
  "Remove env fs p = (False, fs') \<Longrightarrow> fs' = fs\<lparr>links := (links fs)(p := None)\<rparr>"
  by (auto simp: Remove_def split: if_splits)

lemma Remove_failure: "Remove env fs p = (True, fs') \<Longrightarrow> fs' = fs"
  by (auto simp: Remove_def split: if_splits)

text \<open>
  What \<open>os.Create\<close> leaves of a regular file that the destination does not lead to: its
  entry and its bytes; and the destination then leads to the file that is written.
\<close>

lemma create_dst_keeps_source:
  assumes c: "create_dst env fs dst = Some (j, created)"
    and wf: "well_formed fs"
    and src: "links fs src = Some (FileLink i)"
    and na: "\<not> leads_to fs dst i"
  shows "j \<noteq> i \<and> links created src = Some (FileLink i) \<and> bytes_of created i = bytes_of fs i \<and>
         folders created = folders fs \<and> well_formed created \<and>
         (\<exists>q. q \<noteq> src \<and> final_path created dst = Some q \<and> links created q = Some (FileLink j))"
proof -
  from c obtain q where q: "final_path fs dst = Some q" and nf: "q \<notin> folders fs"
    by (auto simp: create_dst_def split: if_splits option.splits)
  from na q have nq: "links fs q \<noteq> Some (FileLink i)" by (simp add: leads_to_def)
  with src have qs: "q \<noteq> src" by auto
  from well_formed_file(1) [OF wf src] have i: "i < next_inode fs" .
  show ?thesis
  proof (cases "\<exists>k. links fs q = Some (FileLink k)")
    case True
    then obtain k where k: "links fs q = Some (FileLink k)" by blast
    with c q nf have j: "j = k" and cr: "created = fs\<lparr>bytes_of := (bytes_of fs)(k \<mapsto> [])\<rparr>"
      by (auto simp: create_dst_def split: if_splits)
    from k nq have "k \<noteq> i" by auto
    moreover from cr q have "final_path created dst = Some q"
      by (simp add: final_path_def)
    moreover from wf cr have "well_formed created" by (auto simp: well_formed_def)
    ultimately show ?thesis using j cr src k qs by auto
  next
    case False
    have none: "links fs q = None"
    proof (cases "links fs q")
      case None
      then show ?thesis .
    next
      case (Some a)
      with False final_path_ends [OF q] show ?thesis by (cases a) auto
    qed
    with c q nf have j: "j = next_inode fs"
      and cr: "created = fs\<lparr>links := (links fs)(q \<mapsto> FileLink (next_inode fs)),
                 bytes_of := (bytes_of fs)(next_inode fs \<mapsto> []),
                 next_inode := Suc (next_inode fs)\<rparr>"
      by (auto simp: create_dst_def split: if_splits)
    have "final_path created dst = final_path fs dst"
      by (rule final_path_same_symlinks) (use cr none in auto)
    with q have "final_path created dst = Some q" by simp
    moreover from wf cr nf have "well_formed created"
      by (auto simp: well_formed_def less_Suc_eq)
    ultimately show ?thesis using j cr src i qs by auto
  qed
qed

lemma open_src_file:
  assumes "links fs src = Some (FileLink i)"
  shows "open_src env fs src = (if open_fails env src then None else Some (ReadsFile i))"
  using assms final_path_no_symlink [of fs src] by (simp add: open_src_def)

lemma copyAndDelete_success:
  assumes ok: "copyAndDelete env fs src dst = (False, fs')"
    and wf: "well_formed fs"
    and src: "links fs src = Some (FileLink i)"
    and na: "\<not> leads_to fs dst i"
  shows "links fs' src = None \<and> folders fs' = folders fs \<and> contents fs' dst = bytes_of fs i"
proof -
  from ok src have op: "open_src env fs src = Some (ReadsFile i)"
    by (auto simp: copyAndDelete_def open_src_file split: if_splits)
  from ok op obtain j created where c: "create_dst env fs dst = Some (j, created)"
    by (cases "create_dst env fs dst") (auto simp: copyAndDelete_def)
  from create_dst_keeps_source [OF c wf src na] obtain q where
    ji: "j \<noteq> i" and ls: "links created src = Some (FileLink i)"
    and bi: "bytes_of created i = bytes_of fs i" and fo: "folders created = folders fs"
    and wfc: "well_formed created" and qs: "q \<noteq> src"
    and fq: "final_path created dst = Some q" and lq: "links created q = Some (FileLink j)"
    by blast
  from well_formed_file(2) [OF wf src] obtain bytes where b: "bytes_of fs i = Some bytes" ..
  let ?copied = "created\<lparr>bytes_of := (bytes_of created)(j \<mapsto> bytes)\<rparr>"
  from ok op c bi b have "Remove env ?copied src = (False, fs')"
    by (auto simp: copyAndDelete_def Let_def split: if_splits option.splits)
  from Remove_success [OF this]
  have fs': "fs' = ?copied\<lparr>links := (links ?copied)(src := None)\<rparr>" .
  have "final_path fs' dst = final_path created dst"
    by (rule final_path_same_symlinks) (use fs' ls in auto)
  with fq have "final_path fs' dst = Some q" by simp
  moreover from fs' lq qs have "links fs' q = Some (FileLink j)" by simp
  moreover from fs' have "bytes_of fs' j = Some bytes" by simp
  ultimately have "contents fs' dst = Some bytes" by (simp add: contents_def)
  with fs' fo b show ?thesis by simp
qed

lemma copyAndDelete_failure:
  assumes err: "copyAndDelete env fs src dst = (True, fs')"
    and wf: "well_formed fs"
    and src: "links fs src = Some (FileLink i)"
    and na: "\<not> leads_to fs dst i"
  shows "links fs' src = Some (FileLink i) \<and> bytes_of fs' i = bytes_of fs i"
proof (cases "open_src env fs src")
  case None
  with err have "fs' = fs" by (simp add: copyAndDelete_def)
  with src show ?thesis by simp
next
  case (Some r)
  with src have op: "open_src env fs src = Some (ReadsFile i)"
    by (auto simp: open_src_file split: if_splits)
  show ?thesis
  proof (cases "create_dst env fs dst")
    case None
    with err op have "fs' = fs" by (simp add: copyAndDelete_def)
    with src show ?thesis by simp
  next
    case (Some jc)
    then obtain j created where c: "create_dst env fs dst = Some (j, created)"
      by (cases jc) simp
    from create_dst_keeps_source [OF c wf src na]
    have ji: "j \<noteq> i" and ls: "links created src = Some (FileLink i)"
      and bi: "bytes_of created i = bytes_of fs i"
      by blast+
    from err op c have "\<exists>bs. fs' = created\<lparr>bytes_of := (bytes_of created)(j \<mapsto> bs)\<rparr>"
      by (auto simp: copyAndDelete_def Let_def Remove_def split: if_splits option.splits)
    then obtain bs where "fs' = created\<lparr>bytes_of := (bytes_of created)(j \<mapsto> bs)\<rparr>" ..
    with ji ls bi show ?thesis by simp
  qed
qed

lemma copyAndDelete_copy_fails:
  assumes "copy_fails_after env src = Some n"
  shows "fst (copyAndDelete env fs src dst)"
  using assms
  by (auto simp: copyAndDelete_def Let_def split: option.splits prod.splits reader.splits)

text \<open>
  Claim C6, as amended. Let the source be a regular file (a hard link, not a symbolic
  link) on a well-formed disk, and the destination a different path that does not lead
  to the same file: it is no other hard link to it and no symbolic link that ends at
  one. After a successful \<open>atomicMove\<close> the source path no longer exists and the
  destination holds the bytes the source had; and when the copy step of \<open>copyAndDelete\<close>
  fails, \<open>copyAndDelete\<close> returns an error and the source is still there with its bytes.
\<close>

theorem atomicMove_distinct_paths:
  assumes "src \<noteq> dst" and "well_formed fs"
    and "links fs src = Some (FileLink i)" and "\<not> leads_to fs dst i"
  shows "(atomicMove env fs src dst = (False, fs') \<longrightarrow>
            (\<exists>bytes. contents fs src = Some bytes \<and> links fs' src = None \<and>
               \<not> stat_ok fs' src \<and> contents fs' src = None \<and> contents fs' dst = Some bytes)) \<and>
         (copy_fails_after env src = Some n \<longrightarrow>
            fst (copyAndDelete env fs src dst) \<and>
            links (snd (copyAndDelete env fs src dst)) src = Some (FileLink i) \<and>
            contents (snd (copyAndDelete env fs src dst)) src = contents fs src)"
proof (intro conjI impI)
  assume ok: "atomicMove env fs src dst = (False, fs')"
  from well_formed_file(2) [OF assms(2,3)] obtain bytes where b: "bytes_of fs i = Some bytes" ..
  from well_formed_file(3) [OF assms(2,3)] have nf: "src \<notin> folders fs" .
  have "links fs' src = None \<and> folders fs' = folders fs \<and> contents fs' dst = Some bytes"
  proof (cases "fst (Rename env fs src dst)")
    case True
    then have "atomicMove env fs src dst = copyAndDelete env fs src dst"
      by (cases "Rename env fs src dst") (auto simp: atomicMove_def)
    with ok have "copyAndDelete env fs src dst = (False, fs')" by simp
    from copyAndDelete_success [OF this assms(2,3,4)] b show ?thesis by simp
  next
    case False
    then have "atomicMove env fs src dst = Rename env fs src dst"
      by (cases "Rename env fs src dst") (auto simp: atomicMove_def)
    with ok have r: "Rename env fs src dst = (False, fs')" by simp
    from assms(3,4) have "links fs dst \<noteq> Some (FileLink i)"
      using final_path_no_symlink [of fs dst] by (auto simp: leads_to_def)
    with assms(1,3) have "\<not> same_file fs src dst" by (simp add: same_file_def)
    with Rename_success [OF r] assms(3)
    have fs': "fs' = fs\<lparr>links := ((links fs)(src := None))(dst \<mapsto> FileLink i)\<rparr>" by auto
    then have "links fs' dst = Some (FileLink i)" by simp
    from contents_file [OF this] fs' b assms(1) show ?thesis by simp
  qed
  with nf b assms(3) show "\<exists>bytes. contents fs src = Some bytes \<and> links fs' src = None \<and>
      \<not> stat_ok fs' src \<and> contents fs' src = None \<and> contents fs' dst = Some bytes"
    by (simp add: contents_file contents_no_entry stat_ok_no_entry)
next
  assume n: "copy_fails_after env src = Some n"
  from copyAndDelete_copy_fails [OF this] show e: "fst (copyAndDelete env fs src dst)" .
  then have "copyAndDelete env fs src dst = (True, snd (copyAndDelete env fs src dst))"
    by (cases "copyAndDelete env fs src dst") simp
  from copyAndDelete_failure [OF this assms(2,3,4)]
  show "links (snd (copyAndDelete env fs src dst)) src = Some (FileLink i)"
    and "contents (snd (copyAndDelete env fs src dst)) src = contents fs src"
    using assms(3) by (simp_all add: contents_file)
qed


text \<open>More generally, every failed move of such a file leaves the source as it was.\<close>

lemma atomicMove_failure_keeps_source:
  assumes "atomicMove env fs src dst = (True, fs')" and "well_formed fs"
    and "links fs src = Some (FileLink i)" and "\<not> leads_to fs dst i"
  shows "links fs' src = Some (FileLink i) \<and> contents fs' src = contents fs src"
proof -
  have "links fs' src = Some (FileLink i) \<and> bytes_of fs' i = bytes_of fs i"
  proof (cases "fst (Rename env fs src dst)")
    case True
    then have "atomicMove env fs src dst = copyAndDelete env fs src dst"
      by (cases "Rename env fs src dst") (auto simp: atomicMove_def)
    with assms(1) have "copyAndDelete env fs src dst = (True, fs')" by simp
    from copyAndDelete_failure [OF this assms(2,3,4)] show ?thesis .
  next
    case False
    then have "atomicMove env fs src dst = Rename env fs src dst"
      by (cases "Rename env fs src dst") (auto simp: atomicMove_def)
    with assms(1) have "Rename env fs src dst = (True, fs')" by simp
    with False show ?thesis by simp
  qed
  with assms(3) show ?thesis by (simp add: contents_file)
qed

text \<open>
  Claim C6 as stated fails when source and destination are the same path (as for an
  archive that \<open>ProcessZipFiles\<close> finds already in its target folder): the rename
  succeeds and the source path still exists.
\<close>

theorem atomicMove_same_path_keeps_source:
  "atomicMove ok_env small_disk ''/dl/a.jpg'' ''/dl/a.jpg'' = (False, small_disk) \<and>
   contents small_disk ''/dl/a.jpg'' = Some ''XYZ''"
proof -
  have "links small_disk ''/dl/a.jpg'' = Some (FileLink 0)"
    by (simp add: small_disk_def plain_disk_def)
  moreover have "\<not> rename_fails ok_env ''/dl/a.jpg'' ''/dl/a.jpg''"
    by (simp add: ok_env_def)
  moreover have "''/dl/a.jpg'' \<notin> folders small_disk"
    by (simp add: small_disk_def plain_disk_def)
  ultimately have "atomicMove ok_env small_disk ''/dl/a.jpg'' ''/dl/a.jpg'' = (False, small_disk)"
    by (simp add: atomicMove_def Rename_def same_file_def)
  moreover have "contents small_disk ''/dl/a.jpg'' = Some ''XYZ''"
    by code_simp
  ultimately show ?thesis by simp
qed

text \<open>
  The two hypotheses on links are needed as well. When source and destination are hard
  links to one file, the rename succeeds and changes nothing, so the source path still
  exists. A symbolic link is moved as a link: with a relative target it is read from the
  directory of the destination, where it leads nowhere.
\<close>

lemma atomicMove_hard_links_keeps_source:
  "fst (atomicMove ok_env linked_disk ''/dl/a.jpg'' ''/dl/Images/a.jpg'') = False \<and>
   links (snd (atomicMove ok_env linked_disk ''/dl/a.jpg'' ''/dl/Images/a.jpg'')) ''/dl/a.jpg'' =
     Some (FileLink 0) \<and>
   contents (snd (atomicMove ok_env linked_disk ''/dl/a.jpg'' ''/dl/Images/a.jpg'')) ''/dl/a.jpg'' =
     Some ''XYZ''"
  by code_simp

lemma atomicMove_relative_symlink_dangles:
  "contents linked_disk ''/dl/sub/l.jpg'' = Some ''T'' \<and>
   fst (atomicMove ok_env linked_disk ''/dl/sub/l.jpg'' ''/dl/Images/l.jpg'') = False \<and>
   links (snd (atomicMove ok_env linked_disk ''/dl/sub/l.jpg'' ''/dl/Images/l.jpg''))
     ''/dl/Images/l.jpg'' = Some (SymLink ''t.jpg'') \<and>
   contents (snd (atomicMove ok_env linked_disk ''/dl/sub/l.jpg'' ''/dl/Images/l.jpg''))
     ''/dl/Images/l.jpg'' = None"
  by code_simp

text \<open>
  Claim C6 (amended) on a move across devices, and on a copy that fails after one byte.
\<close>

theorem atomicMove_distinct_paths_witness:
  "fst (atomicMove cross_device_env small_disk ''/dl/a.jpg'' ''/dl/Images/a.jpg'') = False \<and>
   links (snd (atomicMove cross_device_env small_disk ''/dl/a.jpg'' ''/dl/Images/a.jpg''))
     ''/dl/a.jpg'' = None \<and>
   contents (snd (atomicMove cross_device_env small_disk ''/dl/a.jpg'' ''/dl/Images/a.jpg''))
     ''/dl/a.jpg'' = None \<and>
   contents (snd (atomicMove cross_device_env small_disk ''/dl/a.jpg'' ''/dl/Images/a.jpg''))
     ''/dl/Images/a.jpg'' = Some ''XYZ'' \<and>
   fst (copyAndDelete failing_copy_env small_disk ''/dl/a.jpg'' ''/dl/Images/a.jpg'') \<and>
   contents (snd (copyAndDelete failing_copy_env small_disk ''/dl/a.jpg'' ''/dl/Images/a.jpg''))
     ''/dl/a.jpg'' = Some ''XYZ'' \<and>
   contents (snd (copyAndDelete failing_copy_env small_disk ''/dl/a.jpg'' ''/dl/Images/a.jpg''))
     ''/dl/Images/a.jpg'' = Some ''X''"
proof -
  let ?src = "''/dl/a.jpg''" and ?dst = "''/dl/Images/a.jpg''"
  let ?moved = "snd (atomicMove cross_device_env small_disk ?src ?dst)"
  have ne: "?src \<noteq> ?dst" by simp
  have wf: "well_formed small_disk"
    by (simp add: well_formed_def small_disk_def plain_disk_def)
  have src: "links small_disk ?src = Some (FileLink 0)"
    by (simp add: small_disk_def plain_disk_def)
  have na: "\<not> leads_to small_disk ?dst 0"
    by (simp add: leads_to_def final_path_def small_disk_def plain_disk_def)
  have bytes: "contents small_disk ?src = Some ''XYZ''" by code_simp
  have moved_ok: "fst (atomicMove cross_device_env small_disk ?src ?dst) = False" by code_simp
  then have mv: "atomicMove cross_device_env small_disk ?src ?dst = (False, ?moved)"
    by (cases "atomicMove cross_device_env small_disk ?src ?dst") simp
  have n: "copy_fails_after failing_copy_env ?src = Some 1"
    by (simp add: failing_copy_env_def)
  from atomicMove_distinct_paths [OF ne wf src na, where env = cross_device_env
      and fs' = ?moved] mv bytes
  have "links ?moved ?src = None \<and> contents ?moved ?src = None \<and>
      contents ?moved ?dst = Some ''XYZ''"
    by auto
  moreover
  from atomicMove_distinct_paths [OF ne wf src na, where env = failing_copy_env and n = 1]
    n bytes
  have "fst (copyAndDelete failing_copy_env small_disk ?src ?dst) \<and>
      contents (snd (copyAndDelete failing_copy_env small_disk ?src ?dst)) ?src = Some ''XYZ''"
    by auto
  moreover
  have "contents (snd (copyAndDelete failing_copy_env small_disk ?src ?dst)) ?dst = Some ''X''"
    by code_simp
  ultimately show ?thesis using moved_ok by simp
qed

section \<open>The organizer on the examples\<close>

text \<open>
  Claim C1 fails on the code for organization by category (and in the same way for
  archive processing, which also reads \<open>Categories\<close>). In the example scan \<open>a.jpg\<close>
  and \<open>b.JPG\<close> have the same bytes and are flagged in \<open>Files\<close>; the copies that
  \<open>OrganizeFiles\<close> ranges over are not flagged, its test \<open>file.IsDuplicate\<close> is false,
  and both files are moved to \<open>Images\<close>.
\<close>

theorem OrganizeFiles_moves_flagged_duplicates:
  "map_option (flag_view ''Images'' ''hX'')
     (ScanDirectory example_md5 [''hX'', ''hY''] ''/dl'' example_tree) =
     Some ([True, True, False, False, False], Some [False, False], Some [False, False]) \<and>
   map_option (run_view [''/dl/a.jpg'', ''/dl/Images/a.jpg'', ''/dl/b.JPG'', ''/dl/Images/b.JPG''])
     by_category_run =
     Some ([None, Some ''X'', None, Some ''X''], 5, 0, [])"
  by code_simp

text \<open>
  Claim C3 fails on the code for archive processing, which moves without looking at
  the destination. \<open>/dl/a.zip\<close> is moved onto the existing \<open>/dl/Images/a.zip\<close>: the
  bytes \<open>ZB\<close> of the existing file are gone, and no warning is given.
\<close>

theorem ProcessZipFiles_overwrites_existing_file:
  "contents zip_disk ''/dl/Images/a.zip'' = Some ''ZB'' \<and>
   map_option (run_view [''/dl/a.zip'', ''/dl/Images/a.zip'']) process_zips_run =
     Some ([None, Some ''ZA''], 2, 0, [])"
  by code_simp

text \<open>
  Claim C9 fails on the code for organization by category. The folder
  \<open>.test_permissions\<close> exists before the run and holds a file; the category folder
  \<open>Images\<close> does not exist, so the dry run probes: \<open>MkdirAll\<close> succeeds on the existing
  folder and \<open>RemoveAll\<close> deletes it with the file in it.
\<close>

theorem dry_run_removes_existing_probe_folder:
  "contents probe_disk ''/dl/.test_permissions/keep.txt'' = Some ''K'' \<and>
   map_option (run_view [''/dl/.test_permissions/keep.txt'', ''/dl/a.jpg'', ''/dl/Images/a.jpg''])
     dry_run_by_category =
     Some ([None, Some ''X'', None], 1, 0, [])"
  by code_simp

section \<open>Properties of the runs\<close>

text \<open>
  The three strategies share \<open>place_file\<close>: when the destination exists, the file is
  skipped, a warning is recorded and the disk is not touched.
\<close>

lemma place_file_existing_destination:
  assumes "Dir (Path file) \<noteq> folderPath" and "stat_ok (disk st) (Join folderPath (Name file))"
  shows "place_file env dryRun folderPath file st =
     st\<lparr>totalSkipped := totalSkipped st + 1,
        warnings := warnings st @ [FileExists (Join folderPath (Name file))]\<rparr>"
  using assms by (simp add: place_file_def Let_def)

text \<open>Dry runs: each loop leaves the disk as it is.\<close>

lemma place_file_dry: "disk (place_file env True folderPath file st) = disk st"
  by (simp add: place_file_def Let_def)

lemma place_files_dry: "disk (place_files env True folderPath fs st) = disk st"
  by (induction fs arbitrary: st) (simp_all add: place_file_dry)

lemma organize_category_dry: "disk (organize_category env True categoryPath fs st) = disk st"
  by (induction fs arbitrary: st) (simp_all add: place_file_dry)

lemma organize_months_dry:
  "DryRun fo \<Longrightarrow> disk (organize_months env fo dateGroups order st) = disk st"
proof (induction order arbitrary: st)
  case Nil
  then show ?case by simp
next
  case (Cons k ks)
  then show ?case by (cases "dateGroups k") (simp_all add: Let_def place_files_dry)
qed

lemma organize_sizes_dry:
  "DryRun fo \<Longrightarrow> disk (organize_sizes env fo scanner cats st) = disk st"
proof (induction cats arbitrary: st)
  case Nil
  then show ?case by simp
next
  case (Cons c cs)
  then show ?case by (simp add: Let_def place_files_dry)
qed

lemma process_zip_dry: "DryRun fo \<Longrightarrow> disk (process_zip env fo z st) = disk st"
  by (simp add: process_zip_def Let_def split: option.splits)

lemma process_zips_dry: "DryRun fo \<Longrightarrow> disk (process_zips env fo zs st) = disk st"
  by (induction zs arbitrary: st) (simp_all add: process_zip_dry)

lemma remove_one_dry: "ddisk (remove_one env True file st) = ddisk st"
  by (simp add: remove_one_def)

lemma remove_all_but_dry: "ddisk (remove_all_but env True keep fs st) = ddisk st"
  by (induction fs arbitrary: st) (simp_all add: remove_one_dry)

lemma remove_groups_dry: "ddisk (remove_groups env True duplicates order st) = ddisk st"
proof (induction order arbitrary: st)
  case Nil
  then show ?case by simp
next
  case (Cons h hs)
  then show ?case by (cases "duplicates h") (simp_all add: remove_all_but_dry)
qed

lemma remove_copies_dry: "ddisk (remove_copies env True fs st) = ddisk st"
  by (induction fs arbitrary: st) (simp_all add: remove_one_dry)

lemma remove_pattern_groups_dry:
  "ddisk (remove_pattern_groups env True go122 duplicates order st) = ddisk st"
proof (induction order arbitrary: st)
  case Nil
  then show ?case by simp
next
  case (Cons h hs)
  then show ?case
    by (cases "duplicates h") (simp_all add: remove_copies_dry split: option.splits prod.splits)
qed

lemma move_one_dry: "ddisk (move_one env True destFolder file st) = ddisk st"
  by (simp add: move_one_def Let_def)

lemma move_all_but_dry: "ddisk (move_all_but env True destFolder keep fs st) = ddisk st"
  by (induction fs arbitrary: st) (simp_all add: move_one_dry)

lemma move_groups_dry: "ddisk (move_groups env True destFolder duplicates order st) = ddisk st"
proof (induction order arbitrary: st)
  case Nil
  then show ?case by simp
next
  case (Cons h hs)
  then show ?case by (cases "duplicates h") (simp_all add: move_all_but_dry)
qed

lemma probe_round_trip:
  assumes "probe_free basePath fs"
    and "MkdirAll env fs (Join basePath ''.test_permissions'') = (False, fs')"
  shows "RemoveAll fs' (Join basePath ''.test_permissions'') = fs"
proof -
  let ?t = "Join basePath ''.test_permissions''"
  from assms(1) have none: "\<And>q. under ?t q \<Longrightarrow> links fs q = None \<and> q \<notin> folders fs"
    and anc: "set (ancestors ?t) \<subseteq> folders fs"
    by (simp_all add: probe_free_def Let_def)
  have "under ?t ?t" by (simp add: under_def)
  with none have "links fs ?t = None" and "?t \<notin> folders fs" by blast+
  with final_path_no_symlink [of fs ?t]
  have "\<not> (case final_path fs ?t of None \<Rightarrow> False | Some q \<Rightarrow> q \<in> folders fs)" by simp
  with assms(2) have fs': "fs' = fs\<lparr>folders := folders fs \<union> set (?t # ancestors ?t)\<rparr>"
    by (auto simp: MkdirAll_def split: if_splits)
  have c: "(\<lambda>q. if under ?t q then None else links fs' q) = links fs"
    using none by (auto simp: fs')
  have f: "Set.filter (\<lambda>q. \<not> under ?t q) (folders fs') = folders fs"
    using none anc \<open>under ?t ?t\<close> by (auto simp: fs')
  have "RemoveAll fs' ?t = fs'\<lparr>links := links fs, folders := folders fs\<rparr>"
    unfolding RemoveAll_def by (simp only: c f)
  also have "\<dots> = fs" by (simp add: fs')
  finally show ?thesis .
qed

lemma organize_categories_dry:
  assumes "DryRun fo" and "probe_free (BasePath fo) (disk st)"
  shows "disk (organize_categories env fo scanner order st) = disk st"
  using assms(2)
proof (induction order arbitrary: st)
  case Nil
  then show ?case by simp
next
  case (Cons c cs)
  show ?case
  proof (cases "Categories scanner c")
    case None
    with Cons show ?thesis by simp
  next
    case (Some catFiles)
    let ?folder = "case CategoryMap fo c of None \<Rightarrow> ''Other'' | Some n \<Rightarrow> n"
    let ?path = "Join (BasePath fo) ?folder"
    let ?t = "Join (BasePath fo) ''.test_permissions''"
    show ?thesis
    proof (cases "stat_ok (disk st) ?path")
      case True
      let ?st = "organize_category env True ?path catFiles st"
      have d: "disk ?st = disk st" by (rule organize_category_dry)
      with Cons.prems have "probe_free (BasePath fo) (disk ?st)" by simp
      from Cons.IH [OF this] d show ?thesis
        using Some True assms(1) by (simp add: Let_def)
    next
      case False
      obtain err fs' where mk: "MkdirAll env (disk st) ?t = (err, fs')"
        by (cases "MkdirAll env (disk st) ?t")
      show ?thesis
      proof (cases err)
        case True
        let ?st = "st\<lparr>warnings := warnings st @ [ProbeFailed ?folder]\<rparr>"
        have d: "disk ?st = disk st" by simp
        with Cons.prems have "probe_free (BasePath fo) (disk ?st)" by simp
        from Cons.IH [OF this] d show ?thesis
          using Some False True mk assms(1) by (simp add: Let_def)
      next
        case nerr: False
        with mk have "RemoveAll fs' ?t = disk st"
          using probe_round_trip [OF Cons.prems] by simp
        then have restored: "st\<lparr>disk := RemoveAll fs' ?t\<rparr> = st" by simp
        let ?st = "organize_category env True ?path catFiles st"
        have d: "disk ?st = disk st" by (rule organize_category_dry)
        with Cons.prems have "probe_free (BasePath fo) (disk ?st)" by simp
        from Cons.IH [OF this] d show ?thesis
          using Some False nerr mk assms(1) restored by (simp add: Let_def)
      qed
    qed
  qed
qed

text \<open>
  In a dry run every modelled strategy leaves the disk unchanged; for organization by
  category this needs that nothing named \<open>.test_permissions\<close> exists under the base
  path before the run.
\<close>

lemma dry_run_leaves_disk_unchanged:
  assumes "DryRun fo"
  shows "disk (OrganizeByDate env format_month fo scanner order fs) = fs"
    and "disk (OrganizeBySize env fo scanner fs) = fs"
    and "disk (ProcessZipFiles env fo scanner fs) = fs"
    and "probe_free (BasePath fo) fs \<Longrightarrow> disk (OrganizeFiles env fo scanner order fs) = fs"
    and "ddisk (RemoveDuplicates env True scanner order fs) = fs"
    and "ddisk (RemoveDuplicatesByPattern env True go122 scanner order fs) = fs"
    and "map_option ddisk (MoveDuplicatesToFolder env True scanner order destFolder fs) = Some fs"
  using assms
  by (simp_all add: OrganizeByDate_def OrganizeBySize_def ProcessZipFiles_def OrganizeFiles_def
        RemoveDuplicates_def RemoveDuplicatesByPattern_def MoveDuplicatesToFolder_def
        organize_months_dry organize_sizes_dry process_zips_dry organize_categories_dry
        remove_groups_dry remove_pattern_groups_dry move_groups_dry start_run_def
        start_dup_run_def)

text \<open>
  Organization by date and by size never touches a regular file whose records are all
  flagged: the flagged records are filtered out of \<open>Scanner.Files\<close>, and a move to a
  destination that does not exist changes neither the entry nor the bytes of a file at
  another path than its source.
\<close>

lemma Rename_keeps_other:
  assumes "holds_file fs p i bytes" and "p \<noteq> src" and "\<not> stat_ok fs dst"
  shows "holds_file (snd (Rename env fs src dst)) p i bytes"
proof -
  from assms(1) have wf: "well_formed fs" and l: "links fs p = Some (FileLink i)"
    and b: "bytes_of fs i = Some bytes"
    by (simp_all add: holds_file_def)
  from stat_ok_file [OF l] assms(3) have pd: "p \<noteq> dst" by auto
  show ?thesis
  proof (cases "Rename env fs src dst")
    case (Pair err fs')
    show ?thesis
    proof (cases err)
      case True
      with Pair Rename_failure [of env fs src dst fs'] assms(1) show ?thesis by simp
    next
      case False
      with Pair have r: "Rename env fs src dst = (False, fs')" by simp
      from Rename_success [OF r] obtain e where e: "links fs src = Some e"
        and fs': "fs' = fs \<or> fs' = fs\<lparr>links := ((links fs)(src := None))(dst \<mapsto> e)\<rparr>"
        by (auto split: if_splits)
      from r e have nd: "dst \<notin> folders fs"
        by (auto simp: Rename_def split: if_splits)
      from fs' show ?thesis
      proof
        assume "fs' = fs"
        with Pair assms(1) show ?thesis by simp
      next
        assume m: "fs' = fs\<lparr>links := ((links fs)(src := None))(dst \<mapsto> e)\<rparr>"
        have "k < next_inode fs' \<and> bytes_of fs' k \<noteq> None" if "links fs' x = Some (FileLink k)" for x k
        proof -
          from that m e have "\<exists>q'. links fs q' = Some (FileLink k)"
            by (auto split: if_splits)
          then obtain q' where "links fs q' = Some (FileLink k)" ..
          from well_formed_file(1,2) [OF wf this] m show ?thesis by auto
        qed
        moreover have "x \<notin> folders fs'" if "links fs' x \<noteq> None" for x
        proof -
          from that m have "x = dst \<or> links fs x \<noteq> None" by (auto split: if_splits)
          with nd wf m show ?thesis by (auto simp: well_formed_def)
        qed
        ultimately have "well_formed fs'" unfolding well_formed_def by blast
        with m l b pd assms(2) Pair show ?thesis by (simp add: holds_file_def)
      qed
    qed
  qed
qed

lemma copyAndDelete_keeps_other:
  assumes "holds_file fs p i bytes" and "p \<noteq> src" and "\<not> stat_ok fs dst"
  shows "holds_file (snd (copyAndDelete env fs src dst)) p i bytes"
proof (cases "open_src env fs src")
  case None
  with assms(1) show ?thesis by (simp add: copyAndDelete_def)
next
  case (Some r)
  show ?thesis
  proof (cases "create_dst env fs dst")
    case None
    with Some assms(1) show ?thesis by (simp add: copyAndDelete_def)
  next
    case c: (Some jc)
    from assms(1) have wf: "well_formed fs" and l: "links fs p = Some (FileLink i)"
      and b: "bytes_of fs i = Some bytes"
      by (simp_all add: holds_file_def)
    from c obtain q where q: "final_path fs dst = Some q" and nf: "q \<notin> folders fs"
      by (auto simp: create_dst_def split: if_splits option.splits)
    with assms(3) have none: "links fs q = None" by (simp add: stat_ok_def)
    let ?j = "next_inode fs"
    let ?created = "fs\<lparr>links := (links fs)(q \<mapsto> FileLink ?j),
                      bytes_of := (bytes_of fs)(?j \<mapsto> []),
                      next_inode := Suc ?j\<rparr>"
    from c q nf none have jc: "jc = (?j, ?created)"
      by (auto simp: create_dst_def split: if_splits)
    from well_formed_file(1) [OF wf l] have i: "i < ?j" .
    from none l have pq: "p \<noteq> q" by auto
    have shape: "\<exists>bs rm. snd (copyAndDelete env fs src dst) =
        ?created\<lparr>bytes_of := (bytes_of ?created)(?j \<mapsto> bs),
                  links := (if rm then (links ?created)(src := None) else links ?created)\<rparr>"
    proof (cases r)
      case ReadsDir
      with Some c jc have "snd (copyAndDelete env fs src dst) = ?created"
        by (simp add: copyAndDelete_def)
      then have "snd (copyAndDelete env fs src dst) =
          ?created\<lparr>bytes_of := (bytes_of ?created)(?j \<mapsto> []),
                    links := (if False then (links ?created)(src := None) else links ?created)\<rparr>"
        by simp
      then show ?thesis by blast
    next
      case (ReadsFile k)
      let ?bytes = "case bytes_of ?created k of None \<Rightarrow> [] | Some b \<Rightarrow> b"
      show ?thesis
      proof (cases "copy_fails_after env src")
        case (Some n)
        with \<open>open_src env fs src = Some r\<close> ReadsFile c jc
        have "snd (copyAndDelete env fs src dst) =
            ?created\<lparr>bytes_of := (bytes_of ?created)(?j \<mapsto> take n ?bytes),
                      links := (if False then (links ?created)(src := None) else links ?created)\<rparr>"
          by (simp add: copyAndDelete_def Let_def)
        then show ?thesis by blast
      next
        case None
        let ?copied = "?created\<lparr>bytes_of := (bytes_of ?created)(?j \<mapsto> ?bytes)\<rparr>"
        show ?thesis
        proof (cases "sync_fails env dst \<or> links ?copied src = None \<or> remove_fails env src")
          case True
          with None \<open>open_src env fs src = Some r\<close> ReadsFile c jc
          have "snd (copyAndDelete env fs src dst) = ?copied"
            by (auto simp: copyAndDelete_def Let_def Remove_def)
          then have "snd (copyAndDelete env fs src dst) =
              ?created\<lparr>bytes_of := (bytes_of ?created)(?j \<mapsto> ?bytes),
                        links := (if False then (links ?created)(src := None) else links ?created)\<rparr>"
            by simp
          then show ?thesis by blast
        next
          case False
          with None \<open>open_src env fs src = Some r\<close> ReadsFile c jc
          have "snd (copyAndDelete env fs src dst) = ?copied\<lparr>links := (links ?copied)(src := None)\<rparr>"
            by (auto simp: copyAndDelete_def Let_def Remove_def)
          then have "snd (copyAndDelete env fs src dst) =
              ?created\<lparr>bytes_of := (bytes_of ?created)(?j \<mapsto> ?bytes),
                        links := (if True then (links ?created)(src := None) else links ?created)\<rparr>"
            by simp
          then show ?thesis by blast
        qed
      qed
    qed
    then obtain bs rm where fs': "snd (copyAndDelete env fs src dst) =
        ?created\<lparr>bytes_of := (bytes_of ?created)(?j \<mapsto> bs),
                  links := (if rm then (links ?created)(src := None) else links ?created)\<rparr>"
      by blast
    let ?fs' = "snd (copyAndDelete env fs src dst)"
    have "k < next_inode ?fs' \<and> bytes_of ?fs' k \<noteq> None" if "links ?fs' x = Some (FileLink k)" for x k
    proof -
      from that have "k = ?j \<or> links fs x = Some (FileLink k)"
        by (auto simp: fs' split: if_splits)
      then show ?thesis
        using well_formed_file(1,2) [OF wf, of x k] by (auto simp: fs' less_Suc_eq)
    qed
    moreover have "x \<notin> folders ?fs'" if "links ?fs' x \<noteq> None" for x
    proof -
      from that have "x = q \<or> links fs x \<noteq> None" by (auto simp: fs' split: if_splits)
      with nf wf show ?thesis by (auto simp: fs' well_formed_def)
    qed
    ultimately have "well_formed ?fs'" unfolding well_formed_def by blast
    moreover from l pq assms(2)
    have "links (snd (copyAndDelete env fs src dst)) p = Some (FileLink i)"
      by (simp add: fs')
    moreover from b i have "bytes_of (snd (copyAndDelete env fs src dst)) i = Some bytes"
      by (simp add: fs')
    ultimately show ?thesis by (simp add: holds_file_def)
  qed
qed

lemma atomicMove_keeps_other:
  assumes "holds_file fs p i bytes" and "p \<noteq> src" and "\<not> stat_ok fs dst"
  shows "holds_file (snd (atomicMove env fs src dst)) p i bytes"
  using Rename_keeps_other [OF assms, of env] copyAndDelete_keeps_other [OF assms, of env]
  by (cases "Rename env fs src dst") (auto simp: atomicMove_def split: bool.splits)

lemma MkdirAll_keeps:
  assumes "holds_file fs p i bytes"
  shows "holds_file (snd (MkdirAll env fs path)) p i bytes"
proof (cases "snd (MkdirAll env fs path) = fs")
  case True
  with assms show ?thesis by simp
next
  case False
  then have fs': "snd (MkdirAll env fs path) = fs\<lparr>folders := folders fs \<union> set (path # ancestors path)\<rparr>"
    and free: "\<forall>a \<in> set (path # ancestors path). links fs a = None"
    by (auto simp: MkdirAll_def split: if_splits)
  from assms have wf: "well_formed fs" by (simp add: holds_file_def)
  from wf free have "well_formed (fs\<lparr>folders := folders fs \<union> set (path # ancestors path)\<rparr>)"
    unfolding well_formed_def by auto
  with assms fs' show ?thesis by (simp add: holds_file_def)
qed

lemma place_file_keeps_other:
  assumes "holds_file (disk st) p i bytes" and "p \<noteq> Path file"
  shows "holds_file (disk (place_file env dryRun folderPath file st)) p i bytes"
proof (cases "Dir (Path file) = folderPath \<or> stat_ok (disk st) (Join folderPath (Name file)) \<or> dryRun")
  case True
  with assms(1) show ?thesis by (auto simp: place_file_def Let_def)
next
  case False
  let ?dst = "Join folderPath (Name file)"
  from False assms
  have "holds_file (snd (atomicMove env (disk st) (Path file) ?dst)) p i bytes"
    by (intro atomicMove_keeps_other) simp_all
  with False show ?thesis
    by (cases "atomicMove env (disk st) (Path file) ?dst")
       (auto simp: place_file_def Let_def split: bool.splits)
qed

lemma place_files_keep_other:
  assumes "holds_file (disk st) p i bytes" and "\<forall>f \<in> set fs. Path f \<noteq> p"
  shows "holds_file (disk (place_files env dryRun folderPath fs st)) p i bytes"
  using assms
proof (induction fs arbitrary: st)
  case Nil
  then show ?case by simp
next
  case (Cons f fs)
  from Cons.prems have "holds_file (disk (place_file env dryRun folderPath f st)) p i bytes"
    by (intro place_file_keeps_other) auto
  with Cons show ?case by simp
qed

lemma group_by_month_members:
  assumes "\<forall>k g. dateGroups k = Some g \<longrightarrow> (\<forall>f \<in> set g. f \<in> A \<and> \<not> IsDuplicate f)"
    and "set fs \<subseteq> A"
    and "group_by_month format_month fs dateGroups k = Some g" and "f \<in> set g"
  shows "f \<in> A \<and> \<not> IsDuplicate f"
  using assms
proof (induction fs arbitrary: dateGroups)
  case Nil
  then show ?case by auto
next
  case (Cons x xs)
  show ?case
  proof (cases "IsDuplicate x")
    case True
    with Cons.prems have "group_by_month format_month xs dateGroups k = Some g" by simp
    with Cons.prems show ?thesis by (intro Cons.IH [of dateGroups]) auto
  next
    case False
    let ?key = "format_month (LastModified x)"
    let ?m = "dateGroups(?key \<mapsto> (case dateGroups ?key of None \<Rightarrow> [] | Some fs \<Rightarrow> fs) @ [x])"
    from False Cons.prems have g: "group_by_month format_month xs ?m k = Some g"
      by (simp add: Let_def)
    have inv: "\<forall>k g. ?m k = Some g \<longrightarrow> (\<forall>f \<in> set g. f \<in> A \<and> \<not> IsDuplicate f)"
    proof (intro allI impI ballI)
      fix k' g' f'
      assume m: "?m k' = Some g'" and f': "f' \<in> set g'"
      show "f' \<in> A \<and> \<not> IsDuplicate f'"
      proof (cases "k' = ?key")
        case True
        with m have "g' = (case dateGroups ?key of None \<Rightarrow> [] | Some fs \<Rightarrow> fs) @ [x]" by simp
        with f' Cons.prems(1,2) False show ?thesis
          by (cases "dateGroups ?key") auto
      next
        case False
        with m have "dateGroups k' = Some g'" by simp
        with Cons.prems(1) f' show ?thesis by blast
      qed
    qed
    from Cons.prems(2) have "set xs \<subseteq> A" by simp
    from Cons.IH [OF inv this g Cons.prems(4)] show ?thesis .
  qed
qed

lemma organize_months_keep_other:
  assumes "holds_file (disk st) p i bytes"
    and "\<forall>k g. dateGroups k = Some g \<longrightarrow> (\<forall>f \<in> set g. Path f \<noteq> p)"
  shows "holds_file (disk (organize_months env fo dateGroups order st)) p i bytes"
  using assms(1)
proof (induction order arbitrary: st)
  case Nil
  then show ?case by simp
next
  case (Cons k ks)
  show ?case
  proof (cases "dateGroups k")
    case None
    with Cons show ?thesis by simp
  next
    case (Some g)
    with assms(2) have g: "\<forall>f \<in> set g. Path f \<noteq> p" by blast
    let ?path = "Join (BasePath fo) k"
    show ?thesis
    proof (cases "DryRun fo")
      case True
      have "holds_file (disk (place_files env True ?path g st)) p i bytes"
        using Cons.prems g by (rule place_files_keep_other)
      from Cons.IH [OF this] show ?thesis using Some True by (simp add: Let_def)
    next
      case False
      obtain err fs' where mk: "MkdirAll env (disk st) ?path = (err, fs')"
        by (cases "MkdirAll env (disk st) ?path")
      have c: "holds_file fs' p i bytes"
        using MkdirAll_keeps [OF Cons.prems, of env ?path] mk by simp
      show ?thesis
      proof (cases err)
        case True
        have "holds_file (disk (st\<lparr>warnings := warnings st @ [FolderFailed k]\<rparr>)) p i bytes"
          using Cons.prems by simp
        from Cons.IH [OF this] show ?thesis using Some False True mk by (simp add: Let_def)
      next
        case nerr: False
        have "holds_file (disk (place_files env False ?path g (st\<lparr>disk := fs'\<rparr>))) p i bytes"
          using g by (intro place_files_keep_other) (simp_all add: c)
        from Cons.IH [OF this] show ?thesis using Some False nerr mk by (simp add: Let_def)
      qed
    qed
  qed
qed

lemma organize_sizes_keep_other:
  assumes "holds_file (disk st) p i bytes"
    and "\<forall>f \<in> set (Files scanner). \<not> IsDuplicate f \<longrightarrow> Path f \<noteq> p"
  shows "holds_file (disk (organize_sizes env fo scanner cats st)) p i bytes"
  using assms(1)
proof (induction cats arbitrary: st)
  case Nil
  then show ?case by simp
next
  case (Cons c cs)
  let ?g = "filter (in_size_category c) (Files scanner)"
  have g: "\<forall>f \<in> set ?g. Path f \<noteq> p"
    using assms(2) by (auto simp: in_size_category_def split: prod.splits)
  let ?path = "Join (BasePath fo) (fst c)"
  show ?case
  proof (cases "?g = []")
    case True
    with Cons show ?thesis by (simp add: Let_def)
  next
    case ne: False
    show ?thesis
    proof (cases "DryRun fo")
      case True
      have "holds_file (disk (place_files env True ?path ?g st)) p i bytes"
        using Cons.prems g by (rule place_files_keep_other)
      from Cons.IH [OF this] show ?thesis using ne True by (simp add: Let_def)
    next
      case False
      obtain err fs' where mk: "MkdirAll env (disk st) ?path = (err, fs')"
        by (cases "MkdirAll env (disk st) ?path")
      have c: "holds_file fs' p i bytes"
        using MkdirAll_keeps [OF Cons.prems, of env ?path] mk by simp
      show ?thesis
      proof (cases err)
        case True
        have "holds_file (disk (st\<lparr>warnings := warnings st @ [FolderFailed (fst c)]\<rparr>)) p i bytes"
          using Cons.prems by simp
        from Cons.IH [OF this] show ?thesis using ne False True mk by (simp add: Let_def)
      next
        case nerr: False
        have "holds_file (disk (place_files env False ?path ?g (st\<lparr>disk := fs'\<rparr>))) p i bytes"
          using g by (intro place_files_keep_other) (simp_all add: c)
        from Cons.IH [OF this] show ?thesis using ne False nerr mk by (simp add: Let_def)
      qed
    qed
  qed
qed

lemma holds_file_contents: "holds_file fs p i bytes \<Longrightarrow> contents fs p = Some bytes"
  by (simp add: holds_file_def contents_file)

lemma by_date_and_by_size_skip_flagged:
  assumes "holds_file fs p i bytes"
    and "\<forall>f \<in> set (Files scanner). Path f = p \<longrightarrow> IsDuplicate f"
  shows "holds_file (disk (OrganizeByDate env format_month fo scanner order fs)) p i bytes"
    and "holds_file (disk (OrganizeBySize env fo scanner fs)) p i bytes"
proof -
  have "\<forall>k g. group_by_month format_month (Files scanner) Map.empty k = Some g \<longrightarrow>
          (\<forall>f \<in> set g. Path f \<noteq> p)"
  proof (intro allI impI ballI)
    fix k g f
    assume "group_by_month format_month (Files scanner) Map.empty k = Some g" "f \<in> set g"
    with group_by_month_members [of Map.empty "set (Files scanner)" "Files scanner" format_month k g f]
    have "f \<in> set (Files scanner) \<and> \<not> IsDuplicate f" by simp
    with assms(2) show "Path f \<noteq> p" by blast
  qed
  with assms(1) show "holds_file (disk (OrganizeByDate env format_month fo scanner order fs)) p i bytes"
    unfolding OrganizeByDate_def by (intro organize_months_keep_other) (simp_all add: start_run_def)
  from assms show "holds_file (disk (OrganizeBySize env fo scanner fs)) p i bytes"
    unfolding OrganizeBySize_def by (intro organize_sizes_keep_other) (auto simp: start_run_def)
qed

end
